theory Spec2Isabelle
  imports Main "HOL-Library.Sublist" "HOL-Library.Multiset" "HOL-Library.AList"
    "HOL-Library.Char_ord" "HOL-Library.List_Lexorder"
begin

section \<open>Strings and the fragment of regular expressions the scripts use\<close>

text \<open>
  File contents and patterns are Python strings; they are modelled as \<open>string\<close>
  (lists of 8-bit characters). The two characters that cannot be written inside a
  string literal get a name.
\<close>

definition bslash :: char where
  "bslash = CHR 0x5C"

definition newline :: char where
  "newline = CHR 0x0A"

text \<open>
  The raw string \<^verbatim>\<open>r"var\(--NAME\)"\<close> of the rule table: the text \<open>var\<close>, an escaped
  opening parenthesis, two dashes, the name and an escaped closing parenthesis.
\<close>

definition var_re :: "string \<Rightarrow> string" where
  "var_re name = ''var'' @ [bslash] @ ''(--'' @ name @ [bslash] @ '')''"

text \<open>
  \<open>re_compile\<close> covers the fragment of Python's \<open>re\<close> syntax in which a pattern denotes
  one literal text: ordinary characters stand for themselves, and a backslash followed
  by a character that is not an ASCII letter or digit stands for that character.
  A backslash at the end of the pattern and a closing parenthesis that closes nothing
  make \<open>re\<close> raise \<open>re.error\<close> (\<open>Malformed\<close>). Every other construct (classes,
  repetition, groups, alternation, anchors, letter and digit escapes) is outside the
  fragment: \<open>Unmodelled\<close> says that the model makes no statement about the pattern.
\<close>

datatype compiled = Literal string | Malformed | Unmodelled

definition is_alnum :: "char \<Rightarrow> bool" where
  "is_alnum c = (let n = (of_char c :: nat) in
     (48 \<le> n \<and> n \<le> 57) \<or> (65 \<le> n \<and> n \<le> 90) \<or> (97 \<le> n \<and> n \<le> 122))"

definition is_special :: "char \<Rightarrow> bool" where
  "is_special c = (c \<in> set ''.^$*+?{}[]|('')"

fun re_compile :: "string \<Rightarrow> compiled" where
  "re_compile [] = Literal []"
| "re_compile [c] =
     (if c = bslash \<or> c = CHR '')'' then Malformed
      else if is_special c then Unmodelled
      else Literal [c])"
| "re_compile (c # d # ds) =
     (if c = bslash then
        (if is_alnum d then Unmodelled
         else (case re_compile ds of Literal l \<Rightarrow> Literal (d # l) | r \<Rightarrow> r))
      else if c = CHR '')'' then Malformed
      else if is_special c then Unmodelled
      else (case re_compile (d # ds) of Literal l \<Rightarrow> Literal (c # l) | r \<Rightarrow> r))"

text \<open>
  \<open>re.finditer\<close> for a literal: the start offsets of the non-overlapping occurrences,
  leftmost first. The search resumes after the end of a match; after an empty match it
  resumes one character further. \<open>i\<close> is the offset of the text still to be searched.
\<close>

fun finditer_from :: "string \<Rightarrow> nat \<Rightarrow> string \<Rightarrow> nat list" where
  "finditer_from p i [] = (if p = [] then [i] else [])"
| "finditer_from p i (c # cs) =
     (if prefix p (c # cs)
      then i # finditer_from p (i + max 1 (length p)) (drop (max 1 (length p) - 1) cs)
      else finditer_from p (Suc i) cs)"

definition finditer :: "string \<Rightarrow> string \<Rightarrow> nat list" where
  "finditer p content = finditer_from p 0 content"

text \<open>
  \<open>re.sub\<close> for a literal pattern and a replacement without backslash: every match that
  \<open>finditer\<close> finds is replaced, the text between the matches is copied.
\<close>

fun sub :: "string \<Rightarrow> string \<Rightarrow> string \<Rightarrow> string" where
  "sub p r [] = (if p = [] then r else [])"
| "sub p r (c # cs) =
     (if prefix p (c # cs)
      then r @ (if p = [] then [c] else []) @ sub p r (drop (max 1 (length p) - 1) cs)
      else c # sub p r cs)"

text \<open>Python's \<open>p in s\<close> on strings: \<open>p\<close> occurs in \<open>s\<close> as a contiguous piece.\<close>

fun contains :: "string \<Rightarrow> string \<Rightarrow> bool" where
  "contains p [] = (p = [])"
| "contains p (c # cs) = (prefix p (c # cs) \<or> contains p cs)"

text \<open>
  \<open>s.split('\n')\<close> and \<open>'\n'.join(lines)\<close>. Splitting the empty string gives one
  empty line.
\<close>

fun split_nl :: "string \<Rightarrow> string list" where
  "split_nl [] = [[]]"
| "split_nl (c # cs) =
     (if c = newline then [] # split_nl cs
      else (case split_nl cs of [] \<Rightarrow> [[c]] | l # ls \<Rightarrow> (c # l) # ls))"

fun join_nl :: "string list \<Rightarrow> string" where
  "join_nl [] = []"
| "join_nl [l] = l"
| "join_nl (l # l' # ls) = l @ newline # join_nl (l' # ls)"

text \<open>
  \<open>str.strip()\<close> removes the characters for which \<open>str.isspace\<close> holds from both ends;
  below code point 256 these are 9 to 13, 28 to 32, 133 and 160.
\<close>

definition isspace :: "char \<Rightarrow> bool" where
  "isspace c = (let n = (of_char c :: nat) in
     (9 \<le> n \<and> n \<le> 13) \<or> (28 \<le> n \<and> n \<le> 32) \<or> n = 133 \<or> n = 160)"

definition strip :: "string \<Rightarrow> string" where
  "strip s = rev (dropWhile isspace (rev (dropWhile isspace s)))"

section \<open>Files\<close>

text \<open>
  A path is the list of its components; this is also how \<open>pathlib\<close> compares paths.
  A file system is an association list from paths to nodes, in the order in which the
  operating system enumerates them, together with the trace of the reads and writes
  done so far. A node is one of

    \<^item> \<open>File r w d\<close>, a regular file with the text \<open>d\<close>, as Python's text mode decodes
      it; a file that cannot be opened for reading or cannot be decoded is not
      \<open>readable\<close>, a file that cannot be opened for writing is not \<open>writable\<close>;

    \<^item> \<open>Link q\<close>, another name of the file that the path \<open>q\<close> names: a symbolic link
      to \<open>q\<close>, or a second hard link to the file of \<open>q\<close>;

    \<^item> \<open>Dir\<close>, a directory;

    \<^item> \<open>Breaks r n d\<close>, a regular file with the text \<open>d\<close> on which writing breaks
      off: the file can be opened for writing, which empties it, and the write raises
      after \<open>n\<close> characters have reached the file (a full device, for instance).

  A name is followed through at most \<open>MAXSYMLINKS\<close> links; with more, opening the file fails.
\<close>

type_synonym path = "string list"

datatype fnode =
    File (readable: bool) (writable: bool) (data: string)
  | Link path
  | Dir
  | Breaks bool nat string

datatype io = ReadOp path | WriteOp path string | WriteFailed path

record fs =
  nodes :: "(path \<times> fnode) list"
  trace :: "io list"

datatype error = FileReadError | FileWriteError | RegexError | OutsideModel

definition MAXSYMLINKS :: nat where
  "MAXSYMLINKS = 40"

text \<open>
  \<open>resolve k ns p\<close> is the path of the node that \<open>p\<close> names, following at most \<open>k\<close> links.
\<close>

fun resolve :: "nat \<Rightarrow> (path \<times> fnode) list \<Rightarrow> path \<Rightarrow> path option" where
  "resolve 0 ns p = (case map_of ns p of Some (Link q) \<Rightarrow> None | _ \<Rightarrow> Some p)"
| "resolve (Suc k) ns p = (case map_of ns p of Some (Link q) \<Rightarrow> resolve k ns q | _ \<Rightarrow> Some p)"

definition target :: "fs \<Rightarrow> path \<Rightarrow> path option" where
  "target s p = resolve MAXSYMLINKS (nodes s) p"

definition read_text :: "fs \<Rightarrow> path \<Rightarrow> (error + string) \<times> fs" where
  "read_text s p =
     ((case target s p of
         None \<Rightarrow> Inl FileReadError
       | Some t \<Rightarrow>
           (case map_of (nodes s) t of
              Some (File r w d) \<Rightarrow> if r then Inr d else Inl FileReadError
            | Some (Breaks r n d) \<Rightarrow> if r then Inr d else Inl FileReadError
            | _ \<Rightarrow> Inl FileReadError)),
      s\<lparr>trace := trace s @ [ReadOp p]\<rparr>)"

text \<open>
  Writing replaces the whole text of the file that the path names, or creates the file.
  Every other name of the file then shows the new text.
\<close>

definition write_text :: "fs \<Rightarrow> path \<Rightarrow> string \<Rightarrow> (error + unit) \<times> fs" where
  "write_text s p d =
     (case target s p of
        None \<Rightarrow> (Inl FileWriteError, s\<lparr>trace := trace s @ [WriteFailed p]\<rparr>)
      | Some t \<Rightarrow>
          (case map_of (nodes s) t of
             None \<Rightarrow> (Inr (), s\<lparr>nodes := AList.update t (File True True d) (nodes s),
                                  trace := trace s @ [WriteOp p d]\<rparr>)
           | Some (File r w old) \<Rightarrow>
               if w then (Inr (), s\<lparr>nodes := AList.update t (File r w d) (nodes s),
                                     trace := trace s @ [WriteOp p d]\<rparr>)
               else (Inl FileWriteError, s\<lparr>trace := trace s @ [WriteFailed p]\<rparr>)
           | Some (Breaks r n old) \<Rightarrow>
               (Inl FileWriteError, s\<lparr>nodes := AList.update t (Breaks r n (take n d)) (nodes s),
                                       trace := trace s @ [WriteFailed p]\<rparr>)
           | Some other \<Rightarrow> (Inl FileWriteError, s\<lparr>trace := trace s @ [WriteFailed p]\<rparr>)))"

section \<open>css-variable-migration.py\<close>

type_synonym rule = "string \<times> string"

definition REPLACEMENTS :: "rule list" where
  "REPLACEMENTS =
  [(var_re ''border'', ''var(--color-border)''),
   (var_re ''background'', ''var(--color-background)''),
   (var_re ''foreground'', ''var(--color-foreground)''),
   (var_re ''muted'', ''var(--color-muted)''),
   (var_re ''muted-foreground'', ''var(--color-muted-foreground)''),
   (var_re ''primary'', ''var(--color-primary)''),
   (var_re ''primary-foreground'', ''var(--color-primary-foreground)''),
   (var_re ''secondary'', ''var(--color-secondary)''),
   (var_re ''secondary-foreground'', ''var(--color-secondary-foreground)''),
   (var_re ''accent'', ''var(--color-accent)''),
   (var_re ''accent-foreground'', ''var(--color-accent-foreground)''),
   (var_re ''destructive'', ''var(--color-destructive)''),
   (var_re ''destructive-foreground'', ''var(--color-destructive-foreground)''),
   (var_re ''card'', ''var(--color-card)''),
   (var_re ''card-foreground'', ''var(--color-card-foreground)''),
   (var_re ''popover'', ''var(--color-popover)''),
   (var_re ''popover-foreground'', ''var(--color-popover-foreground)''),
   (var_re ''ring'', ''var(--color-ring)''),
   (var_re ''input'', ''var(--color-input)''),
   (var_re ''success'', ''var(--color-success)''),
   (var_re ''success-foreground'', ''var(--color-success-foreground)''),
   (var_re ''warning'', ''var(--color-warning)''),
   (var_re ''warning-foreground'', ''var(--color-warning-foreground)''),
   (var_re ''info'', ''var(--color-info)''),
   (var_re ''info-foreground'', ''var(--color-info-foreground)''),
   (var_re ''sidebar'', ''var(--color-sidebar)''),
   (var_re ''sidebar-foreground'', ''var(--color-sidebar-foreground)''),
   (var_re ''line-height-display-2xl'', ''var(--leading-display-2xl)''),
   (var_re ''line-height-display-xl'', ''var(--leading-display-xl)''),
   (var_re ''line-height-display-lg'', ''var(--leading-display-lg)''),
   (var_re ''line-height-display-md'', ''var(--leading-display-md)''),
   (var_re ''line-height-display-sm'', ''var(--leading-display-sm)''),
   (var_re ''line-height-large-title'', ''var(--leading-large-title)''),
   (var_re ''line-height-title-1'', ''var(--leading-title-1)''),
   (var_re ''line-height-title-2'', ''var(--leading-title-2)''),
   (var_re ''line-height-title-3'', ''var(--leading-title-3)''),
   (var_re ''line-height-headline'', ''var(--leading-headline)''),
   (var_re ''line-height-body'', ''var(--leading-body)''),
   (var_re ''line-height-callout'', ''var(--leading-callout)''),
   (var_re ''line-height-subheadline'', ''var(--leading-subheadline)''),
   (var_re ''line-height-footnote'', ''var(--leading-footnote)''),
   (var_re ''line-height-caption'', ''var(--leading-caption)''),
   (var_re ''line-height-none'', ''var(--leading-none)''),
   (var_re ''line-height-tight'', ''var(--leading-tight)''),
   (var_re ''line-height-snug'', ''var(--leading-snug)''),
   (var_re ''line-height-normal'', ''var(--leading-normal)''),
   (var_re ''line-height-relaxed'', ''var(--leading-relaxed)''),
   (var_re ''line-height-loose'', ''var(--leading-loose)''),
   (var_re ''radius-small'', ''var(--radius-sm)''),
   (var_re ''radius-medium'', ''var(--radius-md)''),
   (var_re ''radius-large'', ''var(--radius-lg)''),
   (var_re ''radius-xlarge'', ''var(--radius-xl)''),
   (var_re ''radius-xxlarge'', ''var(--radius-2xl)''),
   (var_re ''shadow-small'', ''var(--shadow-sm)''),
   (var_re ''shadow-medium'', ''var(--shadow-md)''),
   (var_re ''shadow-large'', ''var(--shadow-lg)''),
   (var_re ''font-display-2xl'', ''var(--text-display-2xl)''),
   (var_re ''font-display-xl'', ''var(--text-display-xl)''),
   (var_re ''font-display-lg'', ''var(--text-display-lg)''),
   (var_re ''font-display-md'', ''var(--text-display-md)''),
   (var_re ''font-display-sm'', ''var(--text-display-sm)''),
   (var_re ''font-large-title'', ''var(--text-large-title)''),
   (var_re ''font-title-1'', ''var(--text-title-1)''),
   (var_re ''font-title-2'', ''var(--text-title-2)''),
   (var_re ''font-title-3'', ''var(--text-title-3)''),
   (var_re ''font-headline'', ''var(--text-headline)''),
   (var_re ''font-body'', ''var(--text-body)''),
   (var_re ''font-callout'', ''var(--text-callout)''),
   (var_re ''font-subheadline'', ''var(--text-subheadline)''),
   (var_re ''font-footnote'', ''var(--text-footnote)''),
   (var_re ''font-caption-1'', ''var(--text-caption-1)''),
   (var_re ''font-caption-2'', ''var(--text-caption-2)'')]"

record change =
  line :: nat
  old :: string
  new :: string

text \<open>
  The loop over the rules in \<open>process_file\<close>. \<open>content\<close> is the text as rewritten by
  the rules before the current one, \<open>chs\<close> the list \<open>result["changes"]\<close>. An exception
  leaves the loop with the changes appended so far. \<open>OutsideModel\<close> is not a Python
  exception: it marks a rule outside the modelled fragment (see \<open>re_compile\<close>; a
  replacement with a backslash is a template for \<open>re.sub\<close>).
\<close>

definition line_of :: "string \<Rightarrow> nat \<Rightarrow> nat" where
  "line_of content start = count_list (take start content) newline + 1"

fun apply_rules :: "rule list \<Rightarrow> string \<Rightarrow> change list \<Rightarrow> change list \<times> (error + string)" where
  "apply_rules [] content chs = (chs, Inr content)"
| "apply_rules ((pattern, replacement) # rs) content chs =
     (case re_compile pattern of
        Malformed \<Rightarrow> (chs, Inl RegexError)
      | Unmodelled \<Rightarrow> (chs, Inl OutsideModel)
      | Literal lit \<Rightarrow>
          (let matches = finditer lit content in
           if matches \<noteq> [] then
             (let chs' = chs @ map (\<lambda>start. \<lparr>line = line_of content start, old = lit,
                                            new = replacement\<rparr>) matches
              in if bslash \<in> set replacement then (chs', Inl OutsideModel)
                 else apply_rules rs (sub lit replacement content) chs')
           else apply_rules rs content chs))"


record result =
  filename :: path
  changes :: "change list"
  modified :: bool
  error :: "error option"

text \<open>
  \<open>process_file\<close>, with the rule table as a parameter. The \<open>file\<close> entry (\<open>filename\<close>) is the path
  itself: paths are taken relative to the project root.
\<close>

definition process_file_with :: "rule list \<Rightarrow> path \<Rightarrow> bool \<Rightarrow> fs \<Rightarrow> result \<times> fs" where
  "process_file_with rules file_path dry_run s =
     (let result = \<lparr>filename = file_path, changes = [], modified = False, error = None\<rparr> in
      case read_text s file_path of
        (Inl e, s1) \<Rightarrow> (result\<lparr>error := Some e\<rparr>, s1)
      | (Inr original_content, s1) \<Rightarrow>
          (case apply_rules rules original_content [] of
             (chs, Inl e) \<Rightarrow> (result\<lparr>changes := chs, error := Some e\<rparr>, s1)
           | (chs, Inr content) \<Rightarrow>
               if content \<noteq> original_content then
                 (if \<not> dry_run then
                    (case write_text s1 file_path content of
                       (Inl e, s2) \<Rightarrow>
                         (result\<lparr>changes := chs, modified := True, error := Some e\<rparr>, s2)
                     | (Inr u, s2) \<Rightarrow> (result\<lparr>changes := chs, modified := True\<rparr>, s2))
                  else (result\<lparr>changes := chs, modified := True\<rparr>, s1))
               else (result\<lparr>changes := chs\<rparr>, s1)))"

definition process_file :: "path \<Rightarrow> bool \<Rightarrow> fs \<Rightarrow> result \<times> fs" where
  "process_file = process_file_with REPLACEMENTS"

text \<open>
  \<open>find_files\<close>: \<open>directory.rglob("*" + ext)\<close> yields the paths below \<open>directory\<close>
  whose last component ends with \<open>ext\<close>, in the order of the enumeration; the results
  for all extensions are put together and sorted. The set of extensions is iterated in
  some order, given here as a list. Nothing tests what kind of node a path names: links
  and directories with such a name are listed like regular files.
\<close>

definition rglob :: "fs \<Rightarrow> path \<Rightarrow> string \<Rightarrow> path list" where
  "rglob s directory ext =
     filter (\<lambda>p. strict_prefix directory p \<and> suffix ext (last p)) (map fst (nodes s))"

definition find_files :: "fs \<Rightarrow> path \<Rightarrow> string list \<Rightarrow> path list" where
  "find_files s directory extensions = sort (concat (map (rglob s directory) extensions))"

definition SEARCH_DIR :: path where
  "SEARCH_DIR = [''apps'', ''frontend'', ''src'']"

definition FILE_EXTENSIONS :: "string list" where
  "FILE_EXTENSIONS = [''.tsx'', ''.ts'', ''.css'']"

text \<open>
  The loop of \<open>main\<close> over the files. The state is \<open>total_changes\<close>, \<open>modified_files\<close>,
  the values that \<open>result\<close> took so far, and the file system.
\<close>

fun main_loop :: "rule list \<Rightarrow> bool \<Rightarrow> path list \<Rightarrow> nat \<times> nat \<times> result list \<times> fs
    \<Rightarrow> nat \<times> nat \<times> result list \<times> fs" where
  "main_loop rules dry_run [] st = st"
| "main_loop rules dry_run (file_path # files) (total_changes, modified_files, results, s) =
     (case process_file_with rules file_path dry_run s of
        (result, s') \<Rightarrow>
          if changes result \<noteq> [] then
            main_loop rules dry_run files
              (total_changes + length (changes result), modified_files + 1,
               results @ [result], s')
          else main_loop rules dry_run files
              (total_changes, modified_files, results @ [result], s'))"

record summary =
  files_scanned :: nat
  files_modified :: nat
  sum_changes :: nat

definition main_with :: "rule list \<Rightarrow> bool \<Rightarrow> fs \<Rightarrow> summary \<times> result list \<times> fs" where
  "main_with rules dry_run s =
     (let files = find_files s SEARCH_DIR FILE_EXTENSIONS in
      case main_loop rules dry_run files (0, 0, [], s) of
        (total_changes, modified_files, results, s') \<Rightarrow>
          (\<lparr>files_scanned = length files, files_modified = modified_files,
            sum_changes = total_changes\<rparr>, results, s'))"

definition main :: "bool \<Rightarrow> fs \<Rightarrow> summary \<times> result list \<times> fs" where
  "main = main_with REPLACEMENTS"

section \<open>fix-all-duplicates.py\<close>

definition LOGGER_IMPORT :: string where
  "LOGGER_IMPORT = ''import { logger } from '' @ [CHR 0x27] @ ''@/lib/logger'' @ [CHR 0x27]"

text \<open>The loop over the lines (\<open>l\<close> is \<open>line\<close>, \<open>seen\<close> is \<open>logger_import_seen\<close>).\<close>

fun dedup_lines :: "string list \<Rightarrow> bool \<Rightarrow> string list \<Rightarrow> string list" where
  "dedup_lines [] seen new_lines = new_lines"
| "dedup_lines (l # lines) seen new_lines =
     (if contains LOGGER_IMPORT l \<and> seen then dedup_lines lines seen new_lines
      else if contains LOGGER_IMPORT l then dedup_lines lines True (new_lines @ [l])
      else dedup_lines lines seen (new_lines @ [l]))"

definition fix_file_content :: "string \<Rightarrow> string" where
  "fix_file_content content = join_nl (dedup_lines (split_nl content) False [])"

definition fix_file :: "path \<Rightarrow> fs \<Rightarrow> bool \<times> fs" where
  "fix_file filepath s =
     (case read_text s filepath of
        (Inl e, s1) \<Rightarrow> (False, s1)
      | (Inr content, s1) \<Rightarrow>
          (case write_text s1 filepath (fix_file_content content) of
             (Inl e, s2) \<Rightarrow> (False, s2)
           | (Inr u, s2) \<Rightarrow> (True, s2)))"

section \<open>fix_orphaned.py\<close>

definition is_trigger :: "string \<Rightarrow> bool" where
  "is_trigger l = (contains ''handleErrorEnhanced('' l \<and> suffix '')'' (strip l))"

definition is_orphan :: "string \<Rightarrow> bool" where
  "is_orphan next_line =
     (next_line \<noteq> [] \<and> contains '':'' next_line \<and>
      (suffix '','' next_line \<or> suffix ''}'' next_line \<or> suffix ''})'' next_line) \<and>
      \<not> prefix ''//'' next_line \<and> \<not> prefix ''*'' next_line)"

text \<open>
  The inner loop, on the lines from index \<open>i\<close> on. It returns the lines from the
  index at which it stops, with \<open>new_lines\<close> and the counter
  \<open>changes\<close> (here \<open>cnt\<close>). When the line is not an orphan it is appended and the loop is left without moving the index.
\<close>

fun skip_orphans :: "string list \<Rightarrow> string list \<Rightarrow> nat \<Rightarrow> string list \<times> string list \<times> nat" where
  "skip_orphans [] new_lines cnt = ([], new_lines, cnt)"
| "skip_orphans (l # rest) new_lines cnt =
     (let next_line = strip l in
      if is_orphan next_line then
        (if suffix ''})'' next_line then (rest, new_lines, cnt + 1)
         else skip_orphans rest new_lines (cnt + 1))
      else (l # rest, new_lines @ [l], cnt))"

text \<open>The outer loop, on the lines from index \<open>i\<close> on.\<close>

function scan_lines :: "string list \<Rightarrow> string list \<Rightarrow> nat \<Rightarrow> string list \<times> nat" where
  "scan_lines [] new_lines cnt = (new_lines, cnt)"
| "scan_lines (l # rest) new_lines cnt =
     (if is_trigger l then
        (case skip_orphans rest (new_lines @ [l]) cnt of
           (rest', new_lines', cnt') \<Rightarrow> scan_lines rest' new_lines' cnt')
      else scan_lines rest (new_lines @ [l]) cnt)"
  by pat_completeness auto
termination
proof (relation "measure (\<lambda>(ls, new_lines, cnt). length ls)")
  have shorter: "length (fst (skip_orphans ls n c)) \<le> length ls" for ls n c
    by (induction ls n c rule: skip_orphans.induct) (auto simp: Let_def)
  fix l rest new_lines cnt x xa y xb
  assume "(x, y) = skip_orphans rest (new_lines @ [l]) cnt"
  then have "x = fst (skip_orphans rest (new_lines @ [l]) cnt)"
    by (metis fst_conv)
  then show "((x, xa, xb), l # rest, new_lines, cnt)
     \<in> measure (\<lambda>(ls, new_lines, cnt). length ls)"
    using shorter [of rest "new_lines @ [l]" cnt] by simp
qed simp_all

definition fix_orphaned_content :: "string \<Rightarrow> string \<times> nat" where
  "fix_orphaned_content content =
     (case scan_lines (split_nl content) [] 0 of
        (new_lines, cnt) \<Rightarrow> (join_nl new_lines, cnt))"

definition fix_orphaned_syntax :: "path \<Rightarrow> fs \<Rightarrow> nat \<times> fs" where
  "fix_orphaned_syntax file_path s =
     (case read_text s file_path of
        (Inl e, s1) \<Rightarrow> (0, s1)
      | (Inr original_content, s1) \<Rightarrow>
          (case fix_orphaned_content original_content of
             (new_content, cnt) \<Rightarrow>
               if new_content \<noteq> original_content then
                 (case write_text s1 file_path new_content of
                    (Inl e, s2) \<Rightarrow> (0, s2)
                  | (Inr u, s2) \<Rightarrow> (cnt, s2))
               else (0, s1)))"

text \<open>
  \<open>os.walk\<close>, top down: a directory is the list of its entries in the order in which
  the operating system lists them. For each directory it yields the path, the names of
  the subdirectories and the names of the files, then walks the subdirectories.
  \<open>ts_files\<close> is the list of files on which \<open>main\<close> calls \<open>fix_orphaned_syntax\<close>, in
  the order of the calls.
\<close>

datatype dirent = FileEnt string | DirEnt string "dirent list"

fun os_walk :: "string \<Rightarrow> dirent list \<Rightarrow> (string \<times> string list \<times> string list) list" where
  "os_walk root es =
     (root, [n. DirEnt n ents \<leftarrow> es], [n. FileEnt n \<leftarrow> es]) #
     concat (map (\<lambda>e. case e of FileEnt n \<Rightarrow> [] | DirEnt n ents \<Rightarrow> os_walk (root @ ''/'' @ n) ents) es)"

definition ts_files :: "dirent list \<Rightarrow> string list" where
  "ts_files tree =
     concat (map (\<lambda>(root, dirs, files). map (\<lambda>f. root @ ''/'' @ f) (filter (suffix ''.ts'') files))
                 (os_walk ''src'' tree))"

section \<open>Notions used in the proofs\<close>

text \<open>
  Every literal and every replacement of the rule table has the form \<open>var(\<close>, a text
  without parentheses, \<open>)\<close>.
\<close>

definition var_shaped :: "string \<Rightarrow> bool" where
  "var_shaped p = (5 \<le> length p \<and> take 4 p = ''var('' \<and> last p = CHR '')'' \<and>
     CHR ''('' \<notin> set (drop 4 p) \<and> CHR '')'' \<notin> set (butlast p))"

definition var_rules :: "rule list \<Rightarrow> bool" where
  "var_rules rules \<longleftrightarrow>
     (\<forall>(p, r) \<in> set rules. (\<exists>lit. re_compile p = Literal lit \<and> var_shaped lit) \<and>
        var_shaped r \<and> bslash \<notin> set r) \<and>
     (\<forall>(p, r) \<in> set rules. \<forall>(p2, r2) \<in> set rules. re_compile p2 \<noteq> Literal r)"

text \<open>
  The replacements of the table have new-style names, the patterns do not; a rule of
  the table has a pattern and a replacement of the form above, without newline.
\<close>

definition new_name :: "string \<Rightarrow> bool" where
  "new_name s = (let n = drop 6 s in
     prefix ''color-'' n \<or> prefix ''leading-'' n \<or> prefix ''text-'' n \<or>
     n \<in> set [''radius-sm)'', ''radius-md)'', ''radius-lg)'', ''radius-xl)'', ''radius-2xl)'',
               ''shadow-sm)'', ''shadow-md)'', ''shadow-lg)''])"

definition table_rule :: "rule \<Rightarrow> bool" where
  "table_rule = (\<lambda>(p, r).
     (case re_compile p of
        Literal lit \<Rightarrow> var_shaped lit \<and> newline \<notin> set lit \<and> \<not> new_name lit
      | _ \<Rightarrow> False) \<and>
     var_shaped r \<and> bslash \<notin> set r \<and> newline \<notin> set r \<and> new_name r)"


text \<open>
  The lines of the matches of \<open>q\<close> in a text, found by one scan that counts the lines as
  it goes; \<open>n\<close> is the number of the current line.
\<close>

fun mlines :: "string \<Rightarrow> nat \<Rightarrow> string \<Rightarrow> nat list" where
  "mlines q n [] = []"
| "mlines q n (c # cs) =
     (if prefix q (c # cs) then n # mlines q (n + count_list q newline) (drop (length q - 1) cs)
      else mlines q (if c = newline then Suc n else n) cs)"

text \<open>
  The change records as C2 words them: for every rule, in the order of the table, and
  every match of its pattern in the original content, the record with the line of the
  match in the original content.
\<close>

definition literal_of :: "string \<Rightarrow> string" where
  "literal_of pattern = (case re_compile pattern of Literal lit \<Rightarrow> lit | _ \<Rightarrow> [])"

definition changes_in_original :: "rule list \<Rightarrow> string \<Rightarrow> change list" where
  "changes_in_original rules content =
     concat (map (\<lambda>(pattern, replacement).
               map (\<lambda>start. \<lparr>line = line_of content start, old = literal_of pattern,
                              new = replacement\<rparr>)
                   (finditer (literal_of pattern) content))
             rules)"

text \<open>
  The rules of a table of this kind have different patterns, and no pattern and no
  replacement has a newline.
\<close>

definition line_rules :: "rule list \<Rightarrow> bool" where
  "line_rules rules \<longleftrightarrow> var_rules rules \<and>
     distinct (map (\<lambda>(p, r). re_compile p) rules) \<and>
     (\<forall>(p, r) \<in> set rules. newline \<notin> set (literal_of p) \<and> newline \<notin> set r)"

text \<open>
  The offset, in the text made of the lines \<open>ls\<close>, of the character at position \<open>j\<close> of
  the line with index \<open>k\<close> (both counted from 0): every line before it takes its length
  and one newline.
\<close>

definition offset_in :: "string list \<Rightarrow> nat \<Rightarrow> nat \<Rightarrow> nat" where
  "offset_in ls k j = sum_list (map (\<lambda>l. Suc (length l)) (take k ls)) + j"

text \<open>
  Substitution rule by rule, for a table inside the modelled fragment (every pattern
  denotes a literal, no replacement has a backslash): the state is the list of records
  and the text as rewritten so far; a rule looks for its matches in that text, records
  them with their lines in that text and replaces them there.
\<close>

definition plain_rule :: "rule \<Rightarrow> bool" where
  "plain_rule = (\<lambda>(p, r).
     (case re_compile p of Literal lit \<Rightarrow> True | _ \<Rightarrow> False) \<and> bslash \<notin> set r)"

definition rule_step :: "change list \<times> string \<Rightarrow> rule \<Rightarrow> change list \<times> string" where
  "rule_step = (\<lambda>(chs, text) (p, r).
     (chs @ map (\<lambda>start. \<lparr>line = line_of text start, old = literal_of p, new = r\<rparr>)
                (finditer (literal_of p) text),
      sub (literal_of p) r text))"

definition sequential :: "rule list \<Rightarrow> string \<Rightarrow> change list \<times> string" where
  "sequential rules content = foldl rule_step ([], content) rules"

text \<open>
  The paths for which a trace records a write, done or refused, in the order of the
  attempts.
\<close>

definition write_attempts :: "io list \<Rightarrow> path list" where
  "write_attempts tr =
     concat (map (\<lambda>e. case e of ReadOp p \<Rightarrow> [] | WriteOp p d \<Rightarrow> [p] | WriteFailed p \<Rightarrow> [p]) tr)"

text \<open>Two listings of one small tree, used as concrete inputs.\<close>

definition demo_tree :: fs where
  "demo_tree = \<lparr>nodes =
     [([''apps'', ''frontend'', ''src'', ''b.css''],
       File True True ''a { border-color: var(--border); }\<newline>a { border-color: var(--border); }''),
      ([''apps'', ''frontend'', ''src'', ''lib'', ''a.ts''], File True True ''const a = 1''),
      ([''apps'', ''frontend'', ''src'', ''locked.tsx''], File False True ''var(--ring)'')],
     trace = []\<rparr>"

definition demo_tree_reordered :: fs where
  "demo_tree_reordered = \<lparr>nodes =
     [([''apps'', ''frontend'', ''src'', ''locked.tsx''], File False True ''var(--ring)''),
      ([''apps'', ''frontend'', ''src'', ''b.css''],
       File True True ''a { border-color: var(--border); }\<newline>a { border-color: var(--border); }''),
      ([''apps'', ''frontend'', ''src'', ''lib'', ''a.ts''], File True True ''const a = 1'')],
     trace = []\<rparr>"

section \<open>Texts of the form \<open>var(...)\<close> do not overlap\<close>

lemma var_shapedE:
  assumes "var_shaped p"
  obtains X where "p = ''var('' @ X @ '')''" "CHR ''('' \<notin> set X" "CHR '')'' \<notin> set X"
proof -
  from assms have len: "5 \<le> length p" and t: "take 4 p = ''var(''" and l: "last p = CHR '')''"
    and n1: "CHR ''('' \<notin> set (drop 4 p)" and n2: "CHR '')'' \<notin> set (butlast p)"
    by (auto simp: var_shaped_def)
  define X where "X = butlast (drop 4 p)"
  have d: "drop 4 p \<noteq> []" using len by simp
  have "p = take 4 p @ drop 4 p" by simp
  also have "drop 4 p = X @ [last (drop 4 p)]" unfolding X_def using d by (metis append_butlast_last_id)
  also have "last (drop 4 p) = last p" using d by (simp add: last_drop)
  finally have p: "p = ''var('' @ X @ '')''" using t l by simp
  have "CHR ''('' \<notin> set X" using n1 unfolding X_def by (meson in_set_butlastD)
  moreover have "CHR '')'' \<notin> set X" using n2 unfolding X_def
    by (metis butlast_drop in_set_dropD)
  ultimately show thesis using p that by blast
qed

lemma shaped_prefix_eq:
  assumes "CHR '')'' \<notin> set X" "CHR '')'' \<notin> set Y" "prefix (X @ '')'') (Y @ '')'' @ u)"
  shows "X = Y"
  using assms
proof (induction X arbitrary: Y)
  case Nil
  then show ?case by (cases Y) auto
next
  case (Cons x X)
  then show ?case by (cases Y) auto
qed

lemma no_var_in_parenfree:
  assumes "CHR ''('' \<notin> set q'"
  shows "\<not> prefix ''var('' (q' @ CHR '')'' # u)"
proof (cases q')
  case Nil then show ?thesis by simp
next
  case c1: (Cons x1 q1)
  show ?thesis
  proof (cases q1)
    case Nil with c1 show ?thesis by simp
  next
    case c2: (Cons x2 q2)
    show ?thesis
    proof (cases q2)
      case Nil with c1 c2 show ?thesis by simp
    next
      case c3: (Cons x3 q3)
      show ?thesis
      proof (cases q3)
        case Nil with c1 c2 c3 show ?thesis by simp
      next
        case (Cons x4 q4) with c1 c2 c3 assms show ?thesis by auto
      qed
    qed
  qed
qed

lemma parenfree_not_prefix_var:
  assumes "CHR ''('' \<notin> set q'"
  shows "\<not> prefix (q' @ '')'') (''var('' @ w)"
proof (cases q')
  case Nil then show ?thesis by simp
next
  case c1: (Cons x1 q1)
  show ?thesis
  proof (cases q1)
    case Nil with c1 show ?thesis by simp
  next
    case c2: (Cons x2 q2)
    show ?thesis
    proof (cases q2)
      case Nil with c1 c2 show ?thesis by simp
    next
      case c3: (Cons x3 q3)
      show ?thesis
      proof (cases q3)
        case Nil with c1 c2 c3 show ?thesis by simp
      next
        case (Cons x4 q4) with c1 c2 c3 assms show ?thesis by auto
      qed
    qed
  qed
qed

lemma suffix_var_cases:
  assumes "suffix q (''var('' @ X @ '')'')" "q \<noteq> []"
  shows "q = ''var('' @ X @ '')'' \<or> q = ''ar('' @ X @ '')'' \<or> q = ''r('' @ X @ '')''
     \<or> q = ''('' @ X @ '')'' \<or> (\<exists>q'. suffix q' X \<and> q = q' @ '')'')"
proof -
  have 1: "suffix q (''ar('' @ X @ '')'') \<or> q = ''var('' @ X @ '')''"
    using assms(1) by (auto simp: suffix_Cons)
  have 2: "suffix q (''ar('' @ X @ '')'') \<Longrightarrow> suffix q (''r('' @ X @ '')'') \<or> q = ''ar('' @ X @ '')''"
    by (auto simp: suffix_Cons)
  have 3: "suffix q (''r('' @ X @ '')'') \<Longrightarrow> suffix q (''('' @ X @ '')'') \<or> q = ''r('' @ X @ '')''"
    by (auto simp: suffix_Cons)
  have 4: "suffix q (''('' @ X @ '')'') \<Longrightarrow> suffix q (X @ '')'') \<or> q = ''('' @ X @ '')''"
    by (auto simp: suffix_Cons)
  have 5: "suffix q (X @ '')'') \<Longrightarrow> \<exists>q'. suffix q' X \<and> q = q' @ '')''"
    using assms(2) by (auto simp: suffix_append suffix_Cons)
  from 1 2 3 4 5 show ?thesis by blast
qed

lemma shaped_no_overlap:
  assumes a: "var_shaped a" and b: "var_shaped b" and ne: "a \<noteq> b"
    and q: "suffix q a" "q \<noteq> []"
  shows "\<not> prefix q (b @ u)" and "\<not> prefix b (q @ u)"
proof -
  from a obtain X where X: "a = ''var('' @ X @ '')''" "CHR ''('' \<notin> set X" "CHR '')'' \<notin> set X"
    by (rule var_shapedE)
  from b obtain Y where Y: "b = ''var('' @ Y @ '')''" "CHR ''('' \<notin> set Y" "CHR '')'' \<notin> set Y"
    by (rule var_shapedE)
  from q X(1) consider
      (whole) "q = ''var('' @ X @ '')''"
    | (other) "q = ''ar('' @ X @ '')'' \<or> q = ''r('' @ X @ '')'' \<or> q = ''('' @ X @ '')''"
    | (tail) q' where "suffix q' X" "q = q' @ '')''"
    using suffix_var_cases by blast
  then have "\<not> prefix q (b @ u) \<and> \<not> prefix b (q @ u)"
  proof cases
    case whole
    have "X \<noteq> Y" using ne X(1) Y(1) by auto
    moreover have "prefix q (b @ u) \<Longrightarrow> X = Y"
      using shaped_prefix_eq [OF X(3) Y(3), of u] whole Y(1) by simp
    moreover have "prefix b (q @ u) \<Longrightarrow> Y = X"
      using shaped_prefix_eq [OF Y(3) X(3), of u] whole Y(1) by simp
    ultimately show ?thesis by blast
  next
    case other
    then show ?thesis using Y(1) by auto
  next
    case tail
    have nf: "CHR ''('' \<notin> set q'" using tail(1) X(2) by (meson set_mono_suffix subsetD)
    have "\<not> prefix q (b @ u)"
      using parenfree_not_prefix_var [OF nf, of "Y @ '')'' @ u"] tail(2) Y(1) by simp
    moreover have "\<not> prefix b (q @ u)"
    proof
      assume "prefix b (q @ u)"
      then have "prefix ''var('' (q' @ CHR '')'' # u)"
        using Y(1) tail(2) by (metis append.assoc append_Cons append_Nil append_prefixD)
      with no_var_in_parenfree [OF nf] show False by blast
    qed
    ultimately show ?thesis by blast
  qed
  then show "\<not> prefix q (b @ u)" and "\<not> prefix b (q @ u)" by blast+
qed

lemma sub_Cons_nonempty:
  "p \<noteq> [] \<Longrightarrow> sub p r (c # cs) =
     (if prefix p (c # cs) then r @ sub p r (drop (length p - 1) cs) else c # sub p r cs)"
  by (cases p) (simp_all add: max_def)

lemma finditer_from_Cons_nonempty:
  "p \<noteq> [] \<Longrightarrow> finditer_from p i (c # cs) =
     (if prefix p (c # cs) then i # finditer_from p (i + length p) (drop (length p - 1) cs)
      else finditer_from p (Suc i) cs)"
  by (cases p) (simp_all add: max_def)

lemma contains_drop: "contains p (drop k s) \<Longrightarrow> contains p s"
proof (induction s arbitrary: k)
  case Nil
  then show ?case by simp
next
  case (Cons c cs)
  then show ?case by (cases k) auto
qed

lemma finditer_from_empty_iff:
  "p \<noteq> [] \<Longrightarrow> (finditer_from p i s = []) = (\<not> contains p s)"
  by (induction s arbitrary: i) (simp_all add: finditer_from_Cons_nonempty del: finditer_from.simps(2))

lemma sub_no_match: "p \<noteq> [] \<Longrightarrow> \<not> contains p s \<Longrightarrow> sub p r s = s"
  by (induction s) (simp_all add: sub_Cons_nonempty del: sub.simps(2))

lemma prefix_sub:
  assumes "p \<noteq> []"
    and no: "\<And>q u. suffix q p' \<Longrightarrow> q \<noteq> [] \<Longrightarrow> \<not> prefix q (r @ u)"
  shows "suffix q p' \<Longrightarrow> prefix q (sub p r t) \<Longrightarrow> prefix q t"
proof (induction t arbitrary: q)
  case Nil
  then show ?case using assms(1) by simp
next
  case (Cons c cs)
  show ?case
  proof (cases q)
    case Nil
    then show ?thesis by simp
  next
    case q: (Cons d q')
    show ?thesis
    proof (cases "prefix p (c # cs)")
      case True
      then have "prefix q (r @ sub p r (drop (length p - 1) cs))"
        using Cons.prems(2) assms(1) by (simp add: sub_Cons_nonempty del: sub.simps(2))
      with no [OF Cons.prems(1)] q show ?thesis by blast
    next
      case False
      then have "prefix (d # q') (c # sub p r cs)"
        using Cons.prems(2) assms(1) q by (simp add: sub_Cons_nonempty del: sub.simps(2))
      then have dc: "d = c" and pq: "prefix q' (sub p r cs)" by simp_all
      have "suffix q' p'" using Cons.prems(1) q by (meson suffix_ConsD)
      from Cons.IH [OF this pq] dc q show ?thesis by simp
    qed
  qed
qed

lemma contains_skip:
  assumes no: "\<And>q u. suffix q r \<Longrightarrow> q \<noteq> [] \<Longrightarrow> \<not> prefix p' (q @ u)"
  shows "suffix q r \<Longrightarrow> contains p' (q @ u) \<Longrightarrow> contains p' u"
proof (induction q)
  case Nil
  then show ?case by simp
next
  case (Cons c q)
  have "\<not> prefix p' ((c # q) @ u)" using no [OF Cons.prems(1)] by blast
  then have "contains p' (q @ u)" using Cons.prems(2) by simp
  moreover have "suffix q r" using Cons.prems(1) by (meson suffix_ConsD)
  ultimately show ?case using Cons.IH by blast
qed

lemma var_shaped_nonempty: "var_shaped p \<Longrightarrow> p \<noteq> []"
  by (auto simp: var_shaped_def)

lemma contains_sub:
  assumes p: "var_shaped p" and r: "var_shaped r" and p': "var_shaped p'" and ne: "p' \<noteq> r"
  shows "contains p' (sub p r s) \<Longrightarrow> contains p' s"
proof (induction "length s" arbitrary: s rule: less_induct)
  case less
  note pn = var_shaped_nonempty [OF p]
  show ?case
  proof (cases s)
    case Nil
    with less.prems pn show ?thesis by simp
  next
    case (Cons c cs)
    show ?thesis
    proof (cases "prefix p (c # cs)")
      case True
      let ?rest = "drop (length p - 1) cs"
      have "contains p' (r @ sub p r ?rest)"
        using less.prems True pn Cons by (simp add: sub_Cons_nonempty del: sub.simps(2))
      then have "contains p' (sub p r ?rest)"
        using contains_skip [of r p' r "sub p r ?rest"] shaped_no_overlap(2) [OF r p' ne [symmetric]]
        by blast
      moreover have "length ?rest < length s" using Cons by simp
      ultimately have "contains p' ?rest" using less.hyps by blast
      then have "contains p' cs" by (rule contains_drop)
      then show ?thesis using Cons by simp
    next
      case False
      then have c: "prefix p' (c # sub p r cs) \<or> contains p' (sub p r cs)"
        using less.prems pn Cons by (simp add: sub_Cons_nonempty del: sub.simps(2))
      show ?thesis
      proof (cases "contains p' (sub p r cs)")
        case True
        then have "contains p' cs" using less.hyps [of cs] Cons by simp
        then show ?thesis using Cons by simp
      next
        case nc: False
        with c have "prefix p' (sub p r (c # cs))"
          using False pn by (simp add: sub_Cons_nonempty del: sub.simps(2))
        then have "prefix p' (c # cs)"
          using prefix_sub [of p p' r p' "c # cs"] pn shaped_no_overlap(1) [OF p' r ne]
          by blast
        then show ?thesis using Cons by simp
      qed
    qed
  qed
qed

lemma not_contains_sub_self:
  assumes p: "var_shaped p" and r: "var_shaped r" and ne: "p \<noteq> r"
  shows "\<not> contains p (sub p r s)"
proof (induction "length s" arbitrary: s rule: less_induct)
  case less
  note pn = var_shaped_nonempty [OF p]
  show ?case
  proof (cases s)
    case Nil
    with pn show ?thesis by simp
  next
    case (Cons c cs)
    show ?thesis
    proof (cases "prefix p (c # cs)")
      case True
      let ?rest = "drop (length p - 1) cs"
      have "length ?rest < length s" using Cons by simp
      then have "\<not> contains p (sub p r ?rest)" using less.hyps by blast
      then have "\<not> contains p (r @ sub p r ?rest)"
        using contains_skip [of r p r "sub p r ?rest"] shaped_no_overlap(2) [OF r p ne [symmetric]]
        by blast
      then show ?thesis
        using True pn Cons by (simp add: sub_Cons_nonempty del: sub.simps(2))
    next
      case False
      have 1: "\<not> contains p (sub p r cs)" using less.hyps [of cs] Cons by simp
      have 2: "\<not> prefix p (sub p r (c # cs))"
        using prefix_sub [of p p r p "c # cs"] pn shaped_no_overlap(1) [OF p r ne] False
        by blast
      from 1 2 show ?thesis
        using False pn Cons by (simp add: sub_Cons_nonempty del: sub.simps(2))
    qed
  qed
qed

section \<open>The rule table\<close>

lemma REPLACEMENTS_compiled:
  "map (\<lambda>(p, r). (re_compile p, r)) REPLACEMENTS =
  [(Literal ''var(--border)'', ''var(--color-border)''),
   (Literal ''var(--background)'', ''var(--color-background)''),
   (Literal ''var(--foreground)'', ''var(--color-foreground)''),
   (Literal ''var(--muted)'', ''var(--color-muted)''),
   (Literal ''var(--muted-foreground)'', ''var(--color-muted-foreground)''),
   (Literal ''var(--primary)'', ''var(--color-primary)''),
   (Literal ''var(--primary-foreground)'', ''var(--color-primary-foreground)''),
   (Literal ''var(--secondary)'', ''var(--color-secondary)''),
   (Literal ''var(--secondary-foreground)'', ''var(--color-secondary-foreground)''),
   (Literal ''var(--accent)'', ''var(--color-accent)''),
   (Literal ''var(--accent-foreground)'', ''var(--color-accent-foreground)''),
   (Literal ''var(--destructive)'', ''var(--color-destructive)''),
   (Literal ''var(--destructive-foreground)'', ''var(--color-destructive-foreground)''),
   (Literal ''var(--card)'', ''var(--color-card)''),
   (Literal ''var(--card-foreground)'', ''var(--color-card-foreground)''),
   (Literal ''var(--popover)'', ''var(--color-popover)''),
   (Literal ''var(--popover-foreground)'', ''var(--color-popover-foreground)''),
   (Literal ''var(--ring)'', ''var(--color-ring)''),
   (Literal ''var(--input)'', ''var(--color-input)''),
   (Literal ''var(--success)'', ''var(--color-success)''),
   (Literal ''var(--success-foreground)'', ''var(--color-success-foreground)''),
   (Literal ''var(--warning)'', ''var(--color-warning)''),
   (Literal ''var(--warning-foreground)'', ''var(--color-warning-foreground)''),
   (Literal ''var(--info)'', ''var(--color-info)''),
   (Literal ''var(--info-foreground)'', ''var(--color-info-foreground)''),
   (Literal ''var(--sidebar)'', ''var(--color-sidebar)''),
   (Literal ''var(--sidebar-foreground)'', ''var(--color-sidebar-foreground)''),
   (Literal ''var(--line-height-display-2xl)'', ''var(--leading-display-2xl)''),
   (Literal ''var(--line-height-display-xl)'', ''var(--leading-display-xl)''),
   (Literal ''var(--line-height-display-lg)'', ''var(--leading-display-lg)''),
   (Literal ''var(--line-height-display-md)'', ''var(--leading-display-md)''),
   (Literal ''var(--line-height-display-sm)'', ''var(--leading-display-sm)''),
   (Literal ''var(--line-height-large-title)'', ''var(--leading-large-title)''),
   (Literal ''var(--line-height-title-1)'', ''var(--leading-title-1)''),
   (Literal ''var(--line-height-title-2)'', ''var(--leading-title-2)''),
   (Literal ''var(--line-height-title-3)'', ''var(--leading-title-3)''),
   (Literal ''var(--line-height-headline)'', ''var(--leading-headline)''),
   (Literal ''var(--line-height-body)'', ''var(--leading-body)''),
   (Literal ''var(--line-height-callout)'', ''var(--leading-callout)''),
   (Literal ''var(--line-height-subheadline)'', ''var(--leading-subheadline)''),
   (Literal ''var(--line-height-footnote)'', ''var(--leading-footnote)''),
   (Literal ''var(--line-height-caption)'', ''var(--leading-caption)''),
   (Literal ''var(--line-height-none)'', ''var(--leading-none)''),
   (Literal ''var(--line-height-tight)'', ''var(--leading-tight)''),
   (Literal ''var(--line-height-snug)'', ''var(--leading-snug)''),
   (Literal ''var(--line-height-normal)'', ''var(--leading-normal)''),
   (Literal ''var(--line-height-relaxed)'', ''var(--leading-relaxed)''),
   (Literal ''var(--line-height-loose)'', ''var(--leading-loose)''),
   (Literal ''var(--radius-small)'', ''var(--radius-sm)''),
   (Literal ''var(--radius-medium)'', ''var(--radius-md)''),
   (Literal ''var(--radius-large)'', ''var(--radius-lg)''),
   (Literal ''var(--radius-xlarge)'', ''var(--radius-xl)''),
   (Literal ''var(--radius-xxlarge)'', ''var(--radius-2xl)''),
   (Literal ''var(--shadow-small)'', ''var(--shadow-sm)''),
   (Literal ''var(--shadow-medium)'', ''var(--shadow-md)''),
   (Literal ''var(--shadow-large)'', ''var(--shadow-lg)''),
   (Literal ''var(--font-display-2xl)'', ''var(--text-display-2xl)''),
   (Literal ''var(--font-display-xl)'', ''var(--text-display-xl)''),
   (Literal ''var(--font-display-lg)'', ''var(--text-display-lg)''),
   (Literal ''var(--font-display-md)'', ''var(--text-display-md)''),
   (Literal ''var(--font-display-sm)'', ''var(--text-display-sm)''),
   (Literal ''var(--font-large-title)'', ''var(--text-large-title)''),
   (Literal ''var(--font-title-1)'', ''var(--text-title-1)''),
   (Literal ''var(--font-title-2)'', ''var(--text-title-2)''),
   (Literal ''var(--font-title-3)'', ''var(--text-title-3)''),
   (Literal ''var(--font-headline)'', ''var(--text-headline)''),
   (Literal ''var(--font-body)'', ''var(--text-body)''),
   (Literal ''var(--font-callout)'', ''var(--text-callout)''),
   (Literal ''var(--font-subheadline)'', ''var(--text-subheadline)''),
   (Literal ''var(--font-footnote)'', ''var(--text-footnote)''),
   (Literal ''var(--font-caption-1)'', ''var(--text-caption-1)''),
   (Literal ''var(--font-caption-2)'', ''var(--text-caption-2)'')]"
  by (simp add: REPLACEMENTS_def var_re_def bslash_def is_special_def is_alnum_def)

lemma REPLACEMENTS_table: "list_all table_rule REPLACEMENTS"
  by code_simp

lemma table_ruleD:
  assumes "(p, r) \<in> set REPLACEMENTS"
  obtains lit where "re_compile p = Literal lit" "var_shaped lit" "newline \<notin> set lit"
    "\<not> new_name lit" "var_shaped r" "bslash \<notin> set r" "newline \<notin> set r" "new_name r"
proof -
  have "table_rule (p, r)" using REPLACEMENTS_table assms by (simp add: list_all_iff)
  then show thesis using that by (auto simp: table_rule_def split: compiled.splits)
qed

lemma REPLACEMENTS_var_rules: "var_rules REPLACEMENTS"
proof -
  have 1: "(\<forall>(p, r) \<in> set REPLACEMENTS. (\<exists>lit. re_compile p = Literal lit \<and> var_shaped lit) \<and>
        var_shaped r \<and> bslash \<notin> set r)"
    using table_ruleD by blast
  have 2: "\<forall>(p, r) \<in> set REPLACEMENTS. \<forall>(p2, r2) \<in> set REPLACEMENTS. re_compile p2 \<noteq> Literal r"
  proof (clarify)
    fix p r p2 r2
    assume a: "(p, r) \<in> set REPLACEMENTS" "(p2, r2) \<in> set REPLACEMENTS" "re_compile p2 = Literal r"
    from table_ruleD [OF a(1)] have "new_name r" by blast
    moreover from table_ruleD [OF a(2)] a(3) have "\<not> new_name r" by (metis compiled.inject)
    ultimately show False by blast
  qed
  from 1 2 show ?thesis unfolding var_rules_def by blast
qed

lemma REPLACEMENTS_distinct: "distinct (map (\<lambda>(p, r). re_compile p) REPLACEMENTS)"
proof -
  have "map (\<lambda>(p, r). re_compile p) REPLACEMENTS =
        map fst (map (\<lambda>(p, r). (re_compile p, r)) REPLACEMENTS)"
    by (simp add: comp_def case_prod_unfold)
  then show ?thesis unfolding REPLACEMENTS_compiled by simp
qed

lemma REPLACEMENTS_no_newline:
  "\<forall>(p, r) \<in> set REPLACEMENTS. newline \<notin> set (literal_of p) \<and> newline \<notin> set r"
proof (clarify)
  fix p r assume a: "(p, r) \<in> set REPLACEMENTS"
  from table_ruleD [OF a] obtain lit where "re_compile p = Literal lit" "newline \<notin> set lit"
    "newline \<notin> set r" by blast
  then show "newline \<notin> set (literal_of p) \<and> newline \<notin> set r" by (simp add: literal_of_def)
qed

lemma REPLACEMENTS_line_rules: "line_rules REPLACEMENTS"
  using REPLACEMENTS_var_rules REPLACEMENTS_distinct REPLACEMENTS_no_newline
  unfolding line_rules_def by blast

lemma REPLACEMENTS_first:
  "REPLACEMENTS = (var_re ''border'', ''var(--color-border)'') # tl REPLACEMENTS"
  by (simp add: REPLACEMENTS_def)

lemma re_compile_border: "re_compile (var_re ''border'') = Literal ''var(--border)''"
  by (simp add: var_re_def bslash_def is_special_def is_alnum_def)

section \<open>The loop over the rules\<close>

lemma finditer_empty_iff: "p \<noteq> [] \<Longrightarrow> (finditer p s = []) = (\<not> contains p s)"
  by (simp add: finditer_def finditer_from_empty_iff)

lemma apply_rules_append:
  "apply_rules (rs @ rs') content chs =
     (case apply_rules rs content chs of
        (chs', Inl e) \<Rightarrow> (chs', Inl e)
      | (chs', Inr content') \<Rightarrow> apply_rules rs' content' chs')"
proof (induction rs arbitrary: content chs)
  case Nil
  then show ?case by simp
next
  case (Cons rule rs)
  obtain p r where "rule = (p, r)" by (cases rule)
  with Cons show ?case by (simp add: Let_def split: compiled.splits)
qed

lemma apply_rules_Cons_match:
  assumes "re_compile p = Literal lit" "finditer lit c \<noteq> []" "bslash \<notin> set r"
  shows "apply_rules ((p, r) # rs) c chs =
     apply_rules rs (sub lit r c)
       (chs @ map (\<lambda>start. \<lparr>line = line_of c start, old = lit, new = r\<rparr>) (finditer lit c))"
  using assms by (simp add: Let_def)

lemma finditer_from_empty_pattern: "finditer_from [] i s \<noteq> []"
  by (cases s) simp_all

lemma finditer_nil_sub: "finditer lit text = [] \<Longrightarrow> sub lit r text = text"
proof (cases "lit = []")
  case True
  assume "finditer lit text = []"
  with True show ?thesis by (simp add: finditer_def finditer_from_empty_pattern)
next
  case False
  assume "finditer lit text = []"
  with False show ?thesis by (simp add: finditer_empty_iff sub_no_match)
qed

text \<open>
  For a table inside the modelled fragment the loop is the substitution rule by rule.
\<close>

lemma apply_rules_fold:
  "list_all plain_rule rules \<Longrightarrow>
     apply_rules rules content chs =
       (fst (foldl rule_step (chs, content) rules), Inr (snd (foldl rule_step (chs, content) rules)))"
proof (induction rules arbitrary: content chs)
  case Nil
  then show ?case by simp
next
  case (Cons rule rules)
  obtain p r where rule: "rule = (p, r)" by (cases rule)
  from Cons.prems rule obtain lit where lit: "re_compile p = Literal lit" and nb: "bslash \<notin> set r"
    by (auto simp: plain_rule_def split: compiled.splits)
  have rest: "list_all plain_rule rules" using Cons.prems by simp
  have lo: "literal_of p = lit" using lit by (simp add: literal_of_def)
  let ?recs = "map (\<lambda>start. \<lparr>line = line_of content start, old = lit, new = r\<rparr>) (finditer lit content)"
  have st: "rule_step (chs, content) rule = (chs @ ?recs, sub lit r content)"
    by (simp add: rule_step_def rule lo)
  show ?case
  proof (cases "finditer lit content = []")
    case True
    then have "apply_rules (rule # rules) content chs = apply_rules rules content chs"
      using lit rule by simp
    moreover have "rule_step (chs, content) rule = (chs, content)"
      using st True finditer_nil_sub [OF True] by simp
    ultimately show ?thesis using Cons.IH [OF rest] by simp
  next
    case False
    have "apply_rules (rule # rules) content chs = apply_rules rules (sub lit r content) (chs @ ?recs)"
      unfolding rule by (rule apply_rules_Cons_match [OF lit False nb])
    then show ?thesis using Cons.IH [OF rest] st by simp
  qed
qed

lemma apply_rules_sequential:
  "list_all plain_rule rules \<Longrightarrow>
     apply_rules rules content [] = (fst (sequential rules content), Inr (snd (sequential rules content)))"
  unfolding sequential_def by (rule apply_rules_fold)

text \<open>Replacing one character by one character.\<close>

lemma sub_char:
  "sub [a] [b] s = map (\<lambda>x. if x = a then b else x) s"
proof (induction s)
  case Nil
  show ?case by simp
next
  case (Cons c s)
  show ?case
  proof (cases "c = a")
    case True
    then have "prefix [a] (c # s)" by simp
    then have "sub [a] [b] (c # s) = [b] @ sub [a] [b] s" by simp
    with True Cons show ?thesis by simp
  next
    case False
    then have "\<not> prefix [a] (c # s)" by simp
    then have "sub [a] [b] (c # s) = c # sub [a] [b] s" by simp
    with False Cons show ?thesis by simp
  qed
qed

lemma apply_rules_no_match:
  assumes "\<forall>(p, r) \<in> set rs. \<exists>lit. re_compile p = Literal lit \<and> lit \<noteq> [] \<and> \<not> contains lit c"
  shows "apply_rules rs c chs = (chs, Inr c)"
  using assms
proof (induction rs)
  case Nil
  then show ?case by simp
next
  case (Cons rule rs)
  obtain p r where rule: "rule = (p, r)" by (cases rule)
  from Cons.prems rule obtain lit where
    lit: "re_compile p = Literal lit" "lit \<noteq> []" "\<not> contains lit c" by auto
  then have "finditer lit c = []" by (simp add: finditer_empty_iff)
  with lit(1) rule have "apply_rules (rule # rs) c chs = apply_rules rs c chs" by simp
  with Cons show ?case by simp
qed

lemma apply_rules_removes:
  assumes ok: "var_rules all"
  shows "set rs \<subseteq> set all \<Longrightarrow> set done \<subseteq> set all \<Longrightarrow>
     \<forall>(p, r) \<in> set done. \<forall>lit. re_compile p = Literal lit \<longrightarrow> \<not> contains lit c \<Longrightarrow>
     \<exists>chs' c'. apply_rules rs c chs = (chs', Inr c') \<and>
        (\<forall>(p, r) \<in> set done \<union> set rs. \<forall>lit. re_compile p = Literal lit \<longrightarrow> \<not> contains lit c')"
proof (induction rs arbitrary: c chs "done")
  case Nil
  then show ?case by simp
next
  case (Cons rule rs)
  obtain p r where rule: "rule = (p, r)" by (cases rule)
  have in_all: "(p, r) \<in> set all" using Cons.prems(1) rule by simp
  with ok obtain lit where lit: "re_compile p = Literal lit" "var_shaped lit"
    and r: "var_shaped r" "bslash \<notin> set r"
    unfolding var_rules_def by blast
  have lit_ne_r: "lit \<noteq> r" using ok in_all lit(1) unfolding var_rules_def by blast
  have litn: "lit \<noteq> []" using lit(2) by (rule var_shaped_nonempty)
  have rs_all: "set rs \<subseteq> set all" using Cons.prems(1) by simp
  have done_all: "set (rule # done) \<subseteq> set all" using Cons.prems(1,2) by simp
  show ?case
  proof (cases "contains lit c")
    case False
    then have fi: "finditer lit c = []" using litn by (simp add: finditer_empty_iff)
    have inv: "\<forall>(p, r) \<in> set (rule # done). \<forall>l. re_compile p = Literal l \<longrightarrow> \<not> contains l c"
      using Cons.prems(3) False lit(1) rule by auto
    from Cons.IH [OF rs_all done_all inv, of chs] obtain chs' c' where
      "apply_rules rs c chs = (chs', Inr c')"
      "\<forall>(p, r) \<in> set (rule # done) \<union> set rs. \<forall>l. re_compile p = Literal l \<longrightarrow> \<not> contains l c'"
      by blast
    moreover have "apply_rules (rule # rs) c chs = apply_rules rs c chs"
      using fi lit(1) rule by simp
    ultimately show ?thesis by (intro exI [of _ chs'] exI [of _ c']) auto
  next
    case True
    then have fi: "finditer lit c \<noteq> []" using litn by (simp add: finditer_empty_iff)
    let ?c = "sub lit r c"
    let ?chs = "chs @ map (\<lambda>start. \<lparr>line = line_of c start, old = lit, new = r\<rparr>) (finditer lit c)"
    have step: "apply_rules (rule # rs) c chs = apply_rules rs ?c ?chs"
      using fi lit(1) r(2) rule by (simp add: Let_def)
    have inv: "\<forall>(p, r) \<in> set (rule # done). \<forall>l. re_compile p = Literal l \<longrightarrow> \<not> contains l ?c"
    proof (clarify)
      fix p2 r2 l assume mem: "(p2, r2) \<in> set (rule # done)" and l: "re_compile p2 = Literal l"
        and con: "contains l ?c"
      show False
      proof (cases "(p2, r2) = rule")
        case True
        then have "l = lit" using l lit(1) rule by simp
        with con not_contains_sub_self [OF lit(2) r(1) lit_ne_r] show False by simp
      next
        case False
        then have d: "(p2, r2) \<in> set done" using mem by simp
        then have a: "(p2, r2) \<in> set all" using Cons.prems(2) by blast
        with ok l have ls: "var_shaped l" unfolding var_rules_def by fastforce
        have "l \<noteq> r" using ok a in_all l unfolding var_rules_def by blast
        from contains_sub [OF lit(2) r(1) ls this con] have "contains l c" .
        with Cons.prems(3) d l show False by blast
      qed
    qed
    from Cons.IH [OF rs_all done_all inv, of ?chs] obtain chs' c' where
      "apply_rules rs ?c ?chs = (chs', Inr c')"
      "\<forall>(p, r) \<in> set (rule # done) \<union> set rs. \<forall>l. re_compile p = Literal l \<longrightarrow> \<not> contains l c'"
      by blast
    with step show ?thesis by (intro exI [of _ chs'] exI [of _ c']) auto
  qed
qed

lemma apply_rules_idempotent:
  assumes ok: "var_rules rules"
  shows "\<exists>chs c'. apply_rules rules content [] = (chs, Inr c') \<and>
           apply_rules rules c' [] = ([], Inr c')"
proof -
  from apply_rules_removes [OF ok, of rules "[]" content "[]"] obtain chs c' where
    1: "apply_rules rules content [] = (chs, Inr c')" and
    2: "\<forall>(p, r) \<in> set rules. \<forall>lit. re_compile p = Literal lit \<longrightarrow> \<not> contains lit c'"
    by auto
  have "\<forall>(p, r) \<in> set rules. \<exists>lit. re_compile p = Literal lit \<and> lit \<noteq> [] \<and> \<not> contains lit c'"
  proof (clarify)
    fix p r assume m: "(p, r) \<in> set rules"
    with ok obtain lit where "re_compile p = Literal lit" "var_shaped lit"
      unfolding var_rules_def by blast
    with 2 m show "\<exists>lit. re_compile p = Literal lit \<and> lit \<noteq> [] \<and> \<not> contains lit c'"
      using var_shaped_nonempty by blast
  qed
  from apply_rules_no_match [OF this] 1 show ?thesis by blast
qed

section \<open>The lines of the matches\<close>

text \<open>Every match that \<open>finditer\<close> reports is an occurrence of the literal.\<close>

lemma finditer_occurrence_from:
  "x \<in> set (finditer_from p i s) \<Longrightarrow> i \<le> x \<and> prefix p (drop (x - i) s)"
proof (induction p i s rule: finditer_from.induct)
  case (1 p i)
  then show ?case by (simp split: if_splits)
next
  case (2 p i c cs)
  let ?n = "max 1 (length p)"
  show ?case
  proof (cases "prefix p (c # cs)")
    case True
    show ?thesis
    proof (cases "x = i")
      case True
      with \<open>prefix p (c # cs)\<close> show ?thesis by simp
    next
      case False
      have "finditer_from p i (c # cs) = i # finditer_from p (i + ?n) (drop (?n - 1) cs)"
        using True by simp
      with 2(3) False have x: "x \<in> set (finditer_from p (i + ?n) (drop (?n - 1) cs))"
        by simp
      note ih = 2(1) [OF True x]
      from ih have a: "i + ?n \<le> x" by (rule conjunct1)
      from ih have b: "prefix p (drop (x - (i + ?n)) (drop (?n - 1) cs))"
        by (rule conjunct2)
      have n: "1 \<le> ?n" by simp
      have "x - i = Suc ((?n - 1) + (x - (i + ?n)))" using a n by linarith
      then have "drop (x - i) (c # cs) = drop ((?n - 1) + (x - (i + ?n))) cs"
        by (simp only: drop_Suc_Cons)
      also have "\<dots> = drop (x - (i + ?n)) (drop (?n - 1) cs)"
        by (simp only: drop_drop add.commute)
      finally have "prefix p (drop (x - i) (c # cs))" using b by simp
      moreover have "i \<le> x" using a by linarith
      ultimately show ?thesis by (rule conjI [rotated])
    qed
  next
    case False
    have "finditer_from p i (c # cs) = finditer_from p (Suc i) cs" using False by simp
    with 2(3) have x: "x \<in> set (finditer_from p (Suc i) cs)" by simp
    note ih = 2(2) [OF False x]
    from ih have a: "Suc i \<le> x" by (rule conjunct1)
    from ih have b: "prefix p (drop (x - Suc i) cs)" by (rule conjunct2)
    have "x - i = Suc (x - Suc i)" using a by linarith
    then have "drop (x - i) (c # cs) = drop (x - Suc i) cs" by (simp only: drop_Suc_Cons)
    with b have "prefix p (drop (x - i) (c # cs))" by simp
    moreover have "i \<le> x" using a by linarith
    ultimately show ?thesis by (rule conjI [rotated])
  qed
qed

lemma finditer_occurrence:
  "start \<in> set (finditer p s) \<Longrightarrow> prefix p (drop start s)"
  using finditer_occurrence_from [of start p 0 s] by (simp add: finditer_def)

text \<open>
  \<open>line_of\<close> is the number of the line, counted from 1: an offset inside the line with
  index \<open>k\<close> (counted from 0) gets the number \<open>k + 1\<close>.
\<close>

lemma join_nl_Cons: "ls \<noteq> [] \<Longrightarrow> join_nl (l # ls) = l @ newline # join_nl ls"
  by (cases ls) simp_all

lemma count_take_line:
  assumes "newline \<notin> set l"
  shows "count_list (take n l) newline = 0"
proof -
  have "newline \<notin> set (take n l)" using assms by (auto dest: in_set_takeD)
  then show ?thesis by (simp add: count_list_0_iff)
qed

lemma offset_count:
  "k < length ls \<Longrightarrow> j \<le> length (ls ! k) \<Longrightarrow> (\<forall>l \<in> set ls. newline \<notin> set l) \<Longrightarrow>
     count_list (take (offset_in ls k j) (join_nl ls)) newline = k"
proof (induction ls arbitrary: k)
  case Nil
  then show ?case by simp
next
  case (Cons l ls)
  have l: "newline \<notin> set l" using Cons.prems(3) by simp
  show ?case
  proof (cases k)
    case 0
    with Cons.prems(2) have j: "j \<le> length l" by simp
    have "take j (join_nl (l # ls)) = take j l"
    proof (cases ls)
      case Nil
      then show ?thesis by simp
    next
      case (Cons l' ls')
      then have "join_nl (l # ls) = l @ newline # join_nl ls" by simp
      then show ?thesis using j by simp
    qed
    moreover have "offset_in (l # ls) 0 j = j" by (simp add: offset_in_def)
    ultimately show ?thesis using 0 count_take_line [OF l] by simp
  next
    case (Suc k')
    have k1: "k' < length ls" using Cons.prems(1) Suc by simp
    have k2: "j \<le> length (ls ! k')" using Cons.prems(2) Suc by simp
    have k3: "\<forall>l \<in> set ls. newline \<notin> set l" using Cons.prems(3) by simp
    from k1 have ne: "ls \<noteq> []" by auto
    have off: "offset_in (l # ls) k j = length l + Suc (offset_in ls k' j)"
      by (simp add: offset_in_def Suc)
    have "take (offset_in (l # ls) k j) (join_nl (l # ls)) =
          l @ newline # take (offset_in ls k' j) (join_nl ls)"
      unfolding off join_nl_Cons [OF ne] by simp
    then have "count_list (take (offset_in (l # ls) k j) (join_nl (l # ls))) newline =
          count_list l newline + Suc (count_list (take (offset_in ls k' j) (join_nl ls)) newline)"
      by simp
    moreover have "count_list l newline = 0" using l by (simp add: count_list_0_iff)
    ultimately show ?thesis using Cons.IH [OF k1 k2 k3] Suc by simp
  qed
qed

lemma line_of_offset:
  assumes "k < length ls" "j \<le> length (ls ! k)" "\<forall>l \<in> set ls. newline \<notin> set l"
  shows "line_of (join_nl ls) (offset_in ls k j) = Suc k"
  using offset_count [OF assms] by (simp add: line_of_def)

lemma line_of_append_length: "line_of (pre @ s) (length pre) = count_list pre newline + 1"
  by (simp add: line_of_def)

lemma count_list_append': "count_list (xs @ ys) a = count_list xs a + count_list ys a"
  by (induction xs) simp_all

lemma finditer_lines:
  "q \<noteq> [] \<Longrightarrow> map (line_of (pre @ s)) (finditer_from q (length pre) s) =
     mlines q (count_list pre newline + 1) s"
proof (induction "length s" arbitrary: s pre rule: less_induct)
  case less
  show ?case
  proof (cases s)
    case Nil
    then show ?thesis using less.prems by simp
  next
    case (Cons c cs)
    show ?thesis
    proof (cases "prefix q (c # cs)")
      case True
      then obtain t where t: "c # cs = q @ t" by (auto simp: prefix_def)
      have dt: "drop (length q - 1) cs = t"
      proof -
        have "drop (length q) (c # cs) = t" using t by simp
        then show ?thesis using less.prems by (cases q) simp_all
      qed
      have lt: "length t < length s" using t Cons less.prems by (cases q) auto
      have "map (line_of ((pre @ q) @ t)) (finditer_from q (length (pre @ q)) t) =
              mlines q (count_list (pre @ q) newline + 1) t"
        using less.hyps [OF lt less.prems, of "pre @ q"] .
      then have rest: "map (line_of (pre @ s)) (finditer_from q (length pre + length q) t) =
              mlines q (count_list pre newline + count_list q newline + 1) t"
        using t Cons by (simp add: count_list_append')
      show ?thesis
        using True rest dt less.prems line_of_append_length [of pre s] Cons
        by (simp add: finditer_from_Cons_nonempty del: finditer_from.simps(2))
    next
      case False
      have "map (line_of ((pre @ [c]) @ cs)) (finditer_from q (length (pre @ [c])) cs) =
              mlines q (count_list (pre @ [c]) newline + 1) cs"
        using less.hyps [of cs "pre @ [c]"] less.prems Cons by simp
      then show ?thesis
        using False less.prems Cons
        by (simp add: finditer_from_Cons_nonempty count_list_append' del: finditer_from.simps(2))
    qed
  qed
qed

lemma match_lines: "q \<noteq> [] \<Longrightarrow> map (line_of s) (finditer q s) = mlines q 1 s"
  using finditer_lines [of q "[]" s] by (simp add: finditer_def)

lemma mlines_skip:
  assumes no: "\<And>v. suffix v w0 \<Longrightarrow> v \<noteq> [] \<Longrightarrow> \<not> prefix q (v @ u)"
  shows "suffix w w0 \<Longrightarrow> mlines q n (w @ u) = mlines q (n + count_list w newline) u"
proof (induction w arbitrary: n)
  case Nil
  then show ?case by simp
next
  case (Cons c w)
  have "\<not> prefix q ((c # w) @ u)" using no [OF Cons.prems] by blast
  moreover have "suffix w w0" using Cons.prems by (meson suffix_ConsD)
  ultimately show ?case using Cons.IH by simp
qed

lemma sub_skip:
  assumes "p \<noteq> []" and no: "\<And>v. suffix v w0 \<Longrightarrow> v \<noteq> [] \<Longrightarrow> \<not> prefix p (v @ u)"
  shows "suffix w w0 \<Longrightarrow> sub p r (w @ u) = w @ sub p r u"
proof (induction w)
  case Nil
  then show ?case by simp
next
  case (Cons c w)
  have "\<not> prefix p ((c # w) @ u)" using no [OF Cons.prems] by blast
  moreover have "suffix w w0" using Cons.prems by (meson suffix_ConsD)
  ultimately show ?case
    using Cons.IH assms(1) by (simp add: sub_Cons_nonempty del: sub.simps(2))
qed

lemma mlines_prefix:
  "q \<noteq> [] \<Longrightarrow> mlines q n (q @ t) = n # mlines q (n + count_list q newline) t"
  by (cases q) simp_all

lemma mlines_sub:
  assumes p: "var_shaped p" and r: "var_shaped r" and p': "var_shaped p'"
    and ne: "p' \<noteq> r" and np: "p' \<noteq> p"
    and nl: "newline \<notin> set p" "newline \<notin> set r"
  shows "mlines p' n (sub p r s) = mlines p' n s"
proof (induction "length s" arbitrary: s n rule: less_induct)
  case less
  note pn = var_shaped_nonempty [OF p]
  note p'n = var_shaped_nonempty [OF p']
  have cp: "count_list p newline = 0" and cr: "count_list r newline = 0"
    using nl by (simp_all add: count_list_0_iff)
  show ?case
  proof (cases s)
    case Nil
    then show ?thesis using pn by simp
  next
    case (Cons c cs)
    show ?thesis
    proof (cases "prefix p s")
      case True
      then obtain t where t: "s = p @ t" by (auto simp: prefix_def)
      have lt: "length t < length s" using t pn by simp
      have dt: "drop (length p - 1) cs = t"
      proof -
        have "drop (length p) (c # cs) = t" using t Cons by simp
        then show ?thesis using pn by (cases p) simp_all
      qed
      have "sub p r s = r @ sub p r t"
        using True Cons dt pn by (simp add: sub_Cons_nonempty del: sub.simps(2))
      then have "mlines p' n (sub p r s) = mlines p' n (sub p r t)"
        using mlines_skip [of r p' "sub p r t" r n] shaped_no_overlap(2) [OF r p' ne [symmetric]] cr
        by simp
      also have "\<dots> = mlines p' n t" using less.hyps [OF lt] .
      also have "\<dots> = mlines p' n s"
        using mlines_skip [of p p' t p n] shaped_no_overlap(2) [OF p p' np [symmetric]] cp t
        by simp
      finally show ?thesis .
    next
      case notp: False
      show ?thesis
      proof (cases "prefix p' s")
        case True
        then obtain t where t: "s = p' @ t" by (auto simp: prefix_def)
        have lt: "length t < length s" using t p'n by simp
        have "sub p r s = p' @ sub p r t"
          using sub_skip [of p p' t p' r] pn shaped_no_overlap(2) [OF p' p np] t by simp
        then have "mlines p' n (sub p r s) = n # mlines p' (n + count_list p' newline) (sub p r t)"
          using mlines_prefix [OF p'n] by simp
        also have "\<dots> = n # mlines p' (n + count_list p' newline) t" using less.hyps [OF lt] by simp
        also have "\<dots> = mlines p' n s" using mlines_prefix [OF p'n] t by simp
        finally show ?thesis .
      next
        case notp': False
        have s1: "sub p r s = c # sub p r cs"
          using notp Cons pn by (simp add: sub_Cons_nonempty del: sub.simps(2))
        have "\<not> prefix p' (sub p r s)"
          using prefix_sub [of p p' r p' s] pn shaped_no_overlap(1) [OF p' r ne] notp' by blast
        then have "mlines p' n (sub p r s) = mlines p' (if c = newline then Suc n else n) (sub p r cs)"
          unfolding s1 by simp
        also have "\<dots> = mlines p' (if c = newline then Suc n else n) cs"
          using less.hyps [of cs] Cons by simp
        also have "\<dots> = mlines p' n s" using notp' Cons by simp
        finally show ?thesis .
      qed
    qed
  qed
qed

lemma apply_rules_changes:
  assumes ok: "line_rules all"
  shows "set rs \<subseteq> set all \<Longrightarrow> distinct (map (\<lambda>(p, r). re_compile p) rs) \<Longrightarrow>
     \<forall>(p, r) \<in> set rs. mlines (literal_of p) 1 c = mlines (literal_of p) 1 c0 \<Longrightarrow>
     fst (apply_rules rs c chs) =
       chs @ concat (map (\<lambda>(p, r). map (\<lambda>n. \<lparr>line = n, old = literal_of p, new = r\<rparr>)
                                        (mlines (literal_of p) 1 c0)) rs)"
proof (induction rs arbitrary: c chs)
  case Nil
  then show ?case by simp
next
  case (Cons rule rs)
  obtain p r where rule: "rule = (p, r)" by (cases rule)
  have vr: "var_rules all" using ok by (simp add: line_rules_def)
  have in_all: "(p, r) \<in> set all" using Cons.prems(1) rule by simp
  with vr obtain lit where lit: "re_compile p = Literal lit" "var_shaped lit"
    and r: "var_shaped r" "bslash \<notin> set r"
    unfolding var_rules_def by blast
  have lo: "literal_of p = lit" using lit(1) by (simp add: literal_of_def)
  have litn: "lit \<noteq> []" using lit(2) by (rule var_shaped_nonempty)
  have nl: "newline \<notin> set lit" "newline \<notin> set r"
    using ok in_all lo unfolding line_rules_def by auto
  have here: "mlines lit 1 c = mlines lit 1 c0" using Cons.prems(3) rule lo by simp
  have rs_all: "set rs \<subseteq> set all" using Cons.prems(1) by simp
  have rs_d: "distinct (map (\<lambda>(p, r). re_compile p) rs)" using Cons.prems(2) by simp
  let ?recs = "\<lambda>c. map (\<lambda>start. \<lparr>line = line_of c start, old = lit, new = r\<rparr>) (finditer lit c)"
  have recs: "?recs c = map (\<lambda>n. \<lparr>line = n, old = lit, new = r\<rparr>) (mlines lit 1 c0)"
  proof -
    have "?recs c = map (\<lambda>n. \<lparr>line = n, old = lit, new = r\<rparr>) (map (line_of c) (finditer lit c))"
      by (simp add: comp_def)
    then show ?thesis using match_lines [OF litn, of c] here by simp
  qed
  show ?case
  proof (cases "finditer lit c = []")
    case True
    then have "?recs c = []" by simp
    with recs have e: "map (\<lambda>n. \<lparr>line = n, old = lit, new = r\<rparr>) (mlines lit 1 c0) = []" by simp
    have inv: "\<forall>(p, r) \<in> set rs. mlines (literal_of p) 1 c = mlines (literal_of p) 1 c0"
      using Cons.prems(3) by simp
    have "apply_rules (rule # rs) c chs = apply_rules rs c chs"
      using True lit(1) rule by simp
    then show ?thesis
      using Cons.IH [OF rs_all rs_d inv, of chs] e rule lo by simp
  next
    case False
    let ?c = "sub lit r c"
    have step: "apply_rules (rule # rs) c chs = apply_rules rs ?c (chs @ ?recs c)"
      using False lit(1) r(2) rule by (simp add: Let_def)
    have inv: "\<forall>(p, r) \<in> set rs. mlines (literal_of p) 1 ?c = mlines (literal_of p) 1 c0"
    proof (clarify)
      fix p2 r2 assume mem: "(p2, r2) \<in> set rs"
      then have a: "(p2, r2) \<in> set all" using rs_all by blast
      with vr obtain l2 where l2: "re_compile p2 = Literal l2" "var_shaped l2"
        unfolding var_rules_def by blast
      have lo2: "literal_of p2 = l2" using l2(1) by (simp add: literal_of_def)
      have "l2 \<noteq> r" using vr a in_all l2(1) unfolding var_rules_def by blast
      moreover have "l2 \<noteq> lit"
      proof
        assume "l2 = lit"
        then have "re_compile p2 = re_compile p" using l2(1) lit(1) by simp
        moreover have "re_compile p \<notin> set (map (\<lambda>(p, r). re_compile p) rs)"
          using Cons.prems(2) rule by simp
        ultimately show False using mem by force
      qed
      ultimately have "mlines l2 1 ?c = mlines l2 1 c"
        using mlines_sub [OF lit(2) r(1) l2(2) _ _ nl] by blast
      then show "mlines (literal_of p2) 1 ?c = mlines (literal_of p2) 1 c0"
        using Cons.prems(3) mem lo2 by auto
    qed
    show ?thesis
      using Cons.IH [OF rs_all rs_d inv, of "chs @ ?recs c"] step recs rule lo by simp
  qed
qed

lemma changes_in_original_mlines:
  assumes "\<forall>(p, r) \<in> set rules. literal_of p \<noteq> []"
  shows "changes_in_original rules c =
     concat (map (\<lambda>(p, r). map (\<lambda>n. \<lparr>line = n, old = literal_of p, new = r\<rparr>)
                                (mlines (literal_of p) 1 c)) rules)"
proof -
  have "map (\<lambda>start. \<lparr>line = line_of c start, old = literal_of p, new = r\<rparr>) (finditer (literal_of p) c) =
        map (\<lambda>n. \<lparr>line = n, old = literal_of p, new = r\<rparr>) (mlines (literal_of p) 1 c)"
    if "(p, r) \<in> set rules" for p r
  proof -
    have "literal_of p \<noteq> []" using assms that by blast
    from match_lines [OF this, of c] show ?thesis
      by (metis (no_types, lifting) map_map comp_apply map_cong)
  qed
  then show ?thesis
    unfolding changes_in_original_def
    by (intro arg_cong [where f = concat] map_cong) auto
qed

lemma apply_rules_changes_original:
  assumes ok: "line_rules rules"
  shows "fst (apply_rules rules content []) = changes_in_original rules content"
proof -
  have vr: "var_rules rules" and d: "distinct (map (\<lambda>(p, r). re_compile p) rules)"
    using ok by (simp_all add: line_rules_def)
  have ne: "\<forall>(p, r) \<in> set rules. literal_of p \<noteq> []"
    using vr var_shaped_nonempty unfolding var_rules_def literal_of_def by fastforce
  have "fst (apply_rules rules content []) =
     [] @ concat (map (\<lambda>(p, r). map (\<lambda>n. \<lparr>line = n, old = literal_of p, new = r\<rparr>)
                                     (mlines (literal_of p) 1 content)) rules)"
    by (rule apply_rules_changes [OF ok _ d]) simp_all
  then show ?thesis using changes_in_original_mlines [OF ne] by simp
qed

lemma border_rule_alone:
  assumes h1: "map (line_of content) (finditer ''var(--border)'' content) = [1, 2]"
    and h2: "\<forall>(pattern, replacement) \<in> set (tl REPLACEMENTS). \<not> contains (literal_of pattern) content"
  shows "apply_rules REPLACEMENTS content [] =
           ([\<lparr>line = 1, old = ''var(--border)'', new = ''var(--color-border)''\<rparr>,
             \<lparr>line = 2, old = ''var(--border)'', new = ''var(--color-border)''\<rparr>],
            Inr (sub ''var(--border)'' ''var(--color-border)'' content))"
    and "sub ''var(--border)'' ''var(--color-border)'' content \<noteq> content"
    and "\<not> contains ''var(--border)'' (sub ''var(--border)'' ''var(--color-border)'' content)"
proof -
  let ?lit = "''var(--border)''" and ?r = "''var(--color-border)''"
  let ?c1 = "sub ?lit ?r content"
  let ?recs = "[\<lparr>line = 1, old = ?lit, new = ?r\<rparr>, \<lparr>line = 2, old = ?lit, new = ?r\<rparr>]"
  note vr = REPLACEMENTS_var_rules
  have first: "(var_re ''border'', ?r) \<in> set REPLACEMENTS"
    using REPLACEMENTS_first by (metis list.set_intros(1))
  have tl_sub: "set (tl REPLACEMENTS) \<subseteq> set REPLACEMENTS"
    using REPLACEMENTS_first by (metis set_subset_Cons)
  have sl: "var_shaped ?lit" and sr: "var_shaped ?r"
    using vr first re_compile_border unfolding var_rules_def by fastforce+
  have nb: "bslash \<notin> set ?r" by (simp add: bslash_def)
  have ne: "finditer ?lit content \<noteq> []" using h1 by auto
  then have occ: "contains ?lit content" by (simp add: finditer_empty_iff)
  have recs: "map (\<lambda>start. \<lparr>line = line_of content start, old = ?lit, new = ?r\<rparr>)
                (finditer ?lit content) = ?recs"
  proof -
    have "map (\<lambda>start. \<lparr>line = line_of content start, old = ?lit, new = ?r\<rparr>) (finditer ?lit content) =
          map (\<lambda>n. \<lparr>line = n, old = ?lit, new = ?r\<rparr>) (map (line_of content) (finditer ?lit content))"
      by (simp add: comp_def)
    then show ?thesis unfolding h1 by simp
  qed
  have step: "apply_rules REPLACEMENTS content [] = apply_rules (tl REPLACEMENTS) ?c1 ?recs"
  proof -
    have "apply_rules REPLACEMENTS content [] =
          apply_rules ((var_re ''border'', ?r) # tl REPLACEMENTS) content []"
      using REPLACEMENTS_first by (rule arg_cong [where f = "\<lambda>rs. apply_rules rs content []"])
    also have "\<dots> = apply_rules (tl REPLACEMENTS) ?c1
        ([] @ map (\<lambda>start. \<lparr>line = line_of content start, old = ?lit, new = ?r\<rparr>)
                (finditer ?lit content))"
      by (rule apply_rules_Cons_match [OF re_compile_border ne nb])
    also have "\<dots> = apply_rules (tl REPLACEMENTS) ?c1 ?recs"
      by (simp only: recs append_Nil)
    finally show ?thesis .
  qed
  have none: "\<forall>(p, r) \<in> set (tl REPLACEMENTS).
      \<exists>lit. re_compile p = Literal lit \<and> lit \<noteq> [] \<and> \<not> contains lit ?c1"
  proof (clarify)
    fix p r assume mem: "(p, r) \<in> set (tl REPLACEMENTS)"
    then have a: "(p, r) \<in> set REPLACEMENTS" using tl_sub by blast
    with vr obtain lit where lit: "re_compile p = Literal lit" "var_shaped lit"
      unfolding var_rules_def by blast
    have "literal_of p = lit" using lit(1) by (simp add: literal_of_def)
    with h2 mem have nc: "\<not> contains lit content" by auto
    have "lit \<noteq> ?r" using vr a first lit(1) unfolding var_rules_def by blast
    from contains_sub [OF sl sr lit(2) this] nc have "\<not> contains lit ?c1" by blast
    with lit show "\<exists>lit. re_compile p = Literal lit \<and> lit \<noteq> [] \<and> \<not> contains lit ?c1"
      using var_shaped_nonempty by blast
  qed
  show "apply_rules REPLACEMENTS content [] = (?recs, Inr ?c1)"
    unfolding step by (rule apply_rules_no_match [OF none])
  have "?lit \<noteq> ?r" by simp
  from not_contains_sub_self [OF sl sr this] show gone: "\<not> contains ?lit ?c1" .
  with occ show "?c1 \<noteq> content" by auto
qed

section \<open>Lines of a text\<close>

lemma split_nl_nonempty: "split_nl s \<noteq> []"
  by (induction s) (auto split: list.splits)

lemma join_nl_Cons_Cons: "join_nl ((c # l) # ls) = c # join_nl (l # ls)"
  by (cases ls) simp_all

lemma join_split_nl: "join_nl (split_nl s) = s"
proof (induction s)
  case Nil
  then show ?case by simp
next
  case (Cons c cs)
  obtain l ls where sp: "split_nl cs = l # ls"
    using split_nl_nonempty [of cs] by (cases "split_nl cs") auto
  show ?case
  proof (cases "c = newline")
    case True
    then show ?thesis using Cons sp by simp
  next
    case False
    then show ?thesis using Cons sp by (simp add: join_nl_Cons_Cons)
  qed
qed

lemma scan_lines_no_trigger:
  "\<forall>l \<in> set ls. \<not> is_trigger l \<Longrightarrow> scan_lines ls new_lines cnt = (new_lines @ ls, cnt)"
  by (induction ls arbitrary: new_lines) simp_all

lemma fix_orphaned_no_trigger:
  assumes "\<forall>l \<in> set (split_nl content). \<not> is_trigger l"
  shows "fix_orphaned_content content = (content, 0)"
  using scan_lines_no_trigger [OF assms, of "[]" 0]
  by (simp add: fix_orphaned_content_def join_split_nl)

lemma dedup_lines_acc: "dedup_lines ls seen new_lines = new_lines @ dedup_lines ls seen []"
proof (induction ls arbitrary: seen new_lines)
  case Nil
  then show ?case by simp
next
  case (Cons l ls)
  note ih = Cons [of _ "new_lines @ [l]"] Cons [of _ "[l]"]
  show ?case
  proof (cases "contains LOGGER_IMPORT l \<and> seen")
    case True
    then show ?thesis using Cons [of seen new_lines] by simp
  next
    case False
    then show ?thesis using ih [of True] ih [of seen] by auto
  qed
qed

lemma dedup_lines_subseq: "subseq (dedup_lines ls seen []) ls"
proof (induction ls arbitrary: seen)
  case Nil
  then show ?case by simp
next
  case (Cons l ls)
  have keep: "subseq (l # dedup_lines ls b []) (l # ls)" for b using Cons by simp
  have drop: "subseq (dedup_lines ls b []) (l # ls)" for b using Cons by (rule list_emb_Cons)
  show ?case
    using keep drop [of True] drop [of seen] dedup_lines_acc [of ls True "[l]"] dedup_lines_acc [of ls seen "[l]"] by simp
qed

lemma dedup_lines_seen_id:
  "filter (contains LOGGER_IMPORT) ls = [] \<Longrightarrow> dedup_lines ls seen [] = ls"
proof (induction ls)
  case Nil
  then show ?case by simp
next
  case (Cons l ls)
  then show ?case using dedup_lines_acc [of ls seen "[l]"] by (simp split: if_splits)
qed

lemma dedup_lines_id:
  "length (filter (contains LOGGER_IMPORT) ls) \<le> 1 \<Longrightarrow> dedup_lines ls False [] = ls"
proof (induction ls)
  case Nil
  then show ?case by simp
next
  case (Cons l ls)
  show ?case
  proof (cases "contains LOGGER_IMPORT l")
    case True
    with Cons.prems have "filter (contains LOGGER_IMPORT) ls = []" by simp
    then show ?thesis
      using True dedup_lines_acc [of ls True "[l]"] dedup_lines_seen_id [of ls True] by simp
  next
    case False
    with Cons show ?thesis using dedup_lines_acc [of ls False "[l]"] by simp
  qed
qed

lemma fix_file_content_id:
  "length (filter (contains LOGGER_IMPORT) (split_nl content)) \<le> 1 \<Longrightarrow>
     fix_file_content content = content"
  by (simp add: fix_file_content_def dedup_lines_id join_split_nl)

section \<open>Reading, writing and \<open>process_file\<close>\<close>

lemma write_attempts_append [simp]:
  "write_attempts (xs @ ys) = write_attempts xs @ write_attempts ys"
  by (simp add: write_attempts_def)

lemma write_attempts_simps [simp]:
  "write_attempts [] = []"
  "write_attempts (ReadOp p # tr) = write_attempts tr"
  "write_attempts (WriteOp p d # tr) = p # write_attempts tr"
  "write_attempts (WriteFailed p # tr) = p # write_attempts tr"
  by (simp_all add: write_attempts_def)

lemma read_text_fs [simp]:
  "nodes (snd (read_text s p)) = nodes s"
  "trace (snd (read_text s p)) = trace s @ [ReadOp p]"
  by (simp_all add: read_text_def)

lemma target_read [simp]: "target (snd (read_text s p)) q = target s q"
  by (simp add: target_def)

lemma write_text_trace:
  "write_attempts (trace (snd (write_text s p d))) = write_attempts (trace s) @ [p]"
  by (auto simp: write_text_def split: option.splits fnode.splits)

text \<open>Writing makes no link and removes none, so every name keeps its file.\<close>

lemma write_text_links:
  "(map_of (nodes (snd (write_text s p d))) x = Some (Link y)) = (map_of (nodes s) x = Some (Link y))"
  by (auto simp: write_text_def update_conv' split: option.splits fnode.splits)

lemma resolve_cong:
  assumes "\<And>x y. (map_of ns' x = Some (Link y)) = (map_of ns x = Some (Link y))"
  shows "resolve k ns' q = resolve k ns q"
proof (induction k arbitrary: q)
  case 0
  show ?case
  proof (cases "\<exists>y. map_of ns q = Some (Link y)")
    case True
    then obtain y where "map_of ns q = Some (Link y)" by blast
    moreover from this have "map_of ns' q = Some (Link y)" using assms by simp
    ultimately show ?thesis by simp
  next
    case False
    then have "\<And>y. map_of ns q \<noteq> Some (Link y)" by blast
    moreover from this have "\<And>y. map_of ns' q \<noteq> Some (Link y)" using assms by simp
    ultimately show ?thesis by (auto split: option.splits fnode.splits)
  qed
next
  case (Suc k)
  show ?case
  proof (cases "\<exists>y. map_of ns q = Some (Link y)")
    case True
    then obtain y where "map_of ns q = Some (Link y)" by blast
    moreover from this have "map_of ns' q = Some (Link y)" using assms by simp
    ultimately show ?thesis using Suc.IH by simp
  next
    case False
    then have "\<And>y. map_of ns q \<noteq> Some (Link y)" by blast
    moreover from this have "\<And>y. map_of ns' q \<noteq> Some (Link y)" using assms by simp
    ultimately show ?thesis by (auto split: option.splits fnode.splits)
  qed
qed

lemma target_write [simp]: "target (snd (write_text s p d)) q = target s q"
  unfolding target_def by (rule resolve_cong) (rule write_text_links)

text \<open>A write changes the node that the path names, and no other.\<close>

lemma write_text_other:
  "target s p \<noteq> Some x \<Longrightarrow> map_of (nodes (snd (write_text s p d))) x = map_of (nodes s) x"
  by (auto simp: write_text_def update_conv' split: option.splits fnode.splits)

lemma write_text_same:
  "fst (write_text s p d) = Inr u \<Longrightarrow>
     \<exists>t r w. target s p = Some t \<and> map_of (nodes (snd (write_text s p d))) t = Some (File r w d)"
  by (auto simp: write_text_def update_conv' split: option.splits fnode.splits if_splits)

lemma read_text_error: "fst (read_text s p) = Inl e \<Longrightarrow> e = FileReadError"
  by (auto simp: read_text_def split: option.splits fnode.splits if_splits)

lemma write_text_error: "fst (write_text s p d) = Inl e \<Longrightarrow> e = FileWriteError"
  by (auto simp: write_text_def split: option.splits fnode.splits if_splits)

text \<open>
  What reading and writing through a path return depends on the file that the path
  names, and on nothing else.
\<close>

lemma read_text_cong:
  assumes "target s1 p = target s2 p"
    and "\<And>t. target s2 p = Some t \<Longrightarrow> map_of (nodes s1) t = map_of (nodes s2) t"
  shows "fst (read_text s1 p) = fst (read_text s2 p)"
  using assms by (cases "target s2 p") (simp_all add: read_text_def)

lemma write_text_cong:
  assumes "target s1 p = target s2 p"
    and "\<And>t. target s2 p = Some t \<Longrightarrow> map_of (nodes s1) t = map_of (nodes s2) t"
  shows "fst (write_text s1 p d) = fst (write_text s2 p d)"
proof (cases "target s2 p")
  case None
  then show ?thesis using assms(1) by (simp add: write_text_def)
next
  case (Some t)
  with assms have "target s1 p = Some t" "map_of (nodes s1) t = map_of (nodes s2) t" by simp_all
  with Some show ?thesis
    by (auto simp: write_text_def split: option.splits fnode.splits)
qed

lemma read_text_same_nodes:
  assumes "nodes s1 = nodes s2"
  shows "fst (read_text s1 p) = fst (read_text s2 p)"
  by (rule read_text_cong) (simp_all add: target_def assms)

lemma read_after_write:
  assumes "fst (read_text s p) = Inr c" "fst (write_text (snd (read_text s p)) p d) = Inr u"
  shows "fst (read_text (snd (write_text (snd (read_text s p)) p d)) p) = Inr d"
proof -
  let ?s1 = "snd (read_text s p)"
  let ?s2 = "snd (write_text ?s1 p d)"
  obtain t where t: "target s p = Some t"
    using assms(1) by (cases "target s p") (simp_all add: read_text_def)
  have rd: "\<exists>w old. map_of (nodes s) t = Some (File True w old) \<or>
                    (\<exists>n. map_of (nodes s) t = Some (Breaks True n old))"
    using assms(1) t by (auto simp: read_text_def split: option.splits fnode.splits if_splits)
  have t1: "target ?s1 p = Some t" using t by simp
  have "\<exists>w. map_of (nodes ?s2) t = Some (File True w d)"
    using assms(2) rd t1
    by (auto simp: write_text_def update_conv' split: option.splits fnode.splits if_splits)
  moreover have "target ?s2 p = Some t" using t1 by simp
  ultimately show ?thesis by (auto simp: read_text_def)
qed

text \<open>
  What \<open>process_file\<close> returns and does, case by case.
\<close>

lemma process_file_read_failed:
  assumes "fst (read_text s p) = Inl e"
  shows "process_file_with rules p dry s =
    (\<lparr>filename = p, changes = [], modified = False, error = Some e\<rparr>, snd (read_text s p))"
  using assms by (cases "read_text s p") (simp add: process_file_with_def)

lemma process_file_rule_failed:
  assumes "fst (read_text s p) = Inr c" "apply_rules rules c [] = (chs, Inl e)"
  shows "process_file_with rules p dry s =
    (\<lparr>filename = p, changes = chs, modified = False, error = Some e\<rparr>, snd (read_text s p))"
  using assms by (cases "read_text s p") (simp add: process_file_with_def)

lemma process_file_unchanged:
  assumes "fst (read_text s p) = Inr c" "apply_rules rules c [] = (chs, Inr c)"
  shows "process_file_with rules p dry s =
    (\<lparr>filename = p, changes = chs, modified = False, error = None\<rparr>, snd (read_text s p))"
  using assms by (cases "read_text s p") (simp add: process_file_with_def)

lemma process_file_dry:
  assumes "fst (read_text s p) = Inr c" "apply_rules rules c [] = (chs, Inr c')" "c' \<noteq> c"
  shows "process_file_with rules p True s =
    (\<lparr>filename = p, changes = chs, modified = True, error = None\<rparr>, snd (read_text s p))"
  using assms by (cases "read_text s p") (simp add: process_file_with_def)

lemma process_file_written:
  assumes "fst (read_text s p) = Inr c" "apply_rules rules c [] = (chs, Inr c')" "c' \<noteq> c"
    "fst (write_text (snd (read_text s p)) p c') = Inr u"
  shows "process_file_with rules p False s =
    (\<lparr>filename = p, changes = chs, modified = True, error = None\<rparr>,
     snd (write_text (snd (read_text s p)) p c'))"
  using assms
  by (cases "read_text s p"; cases "write_text (snd (read_text s p)) p c'")
     (simp add: process_file_with_def)

lemma process_file_write_failed:
  assumes "fst (read_text s p) = Inr c" "apply_rules rules c [] = (chs, Inr c')" "c' \<noteq> c"
    "fst (write_text (snd (read_text s p)) p c') = Inl e"
  shows "process_file_with rules p False s =
    (\<lparr>filename = p, changes = chs, modified = True, error = Some e\<rparr>,
     snd (write_text (snd (read_text s p)) p c'))"
  using assms
  by (cases "read_text s p"; cases "write_text (snd (read_text s p)) p c'")
     (simp add: process_file_with_def)

lemma process_file_with_cases:
  obtains
    (read_failed) e where "fst (read_text s p) = Inl e"
      "process_file_with rules p dry s =
         (\<lparr>filename = p, changes = [], modified = False, error = Some e\<rparr>, snd (read_text s p))"
  | (rule_failed) c chs e where "fst (read_text s p) = Inr c" "apply_rules rules c [] = (chs, Inl e)"
      "process_file_with rules p dry s =
         (\<lparr>filename = p, changes = chs, modified = False, error = Some e\<rparr>, snd (read_text s p))"
  | (unchanged) c chs where "fst (read_text s p) = Inr c" "apply_rules rules c [] = (chs, Inr c)"
      "process_file_with rules p dry s =
         (\<lparr>filename = p, changes = chs, modified = False, error = None\<rparr>, snd (read_text s p))"
  | (dry) c chs c' where "fst (read_text s p) = Inr c" "apply_rules rules c [] = (chs, Inr c')"
      "c' \<noteq> c" "dry"
      "process_file_with rules p dry s =
         (\<lparr>filename = p, changes = chs, modified = True, error = None\<rparr>, snd (read_text s p))"
  | (written) c chs c' u where "fst (read_text s p) = Inr c" "apply_rules rules c [] = (chs, Inr c')"
      "c' \<noteq> c" "\<not> dry" "fst (write_text (snd (read_text s p)) p c') = Inr u"
      "process_file_with rules p dry s =
         (\<lparr>filename = p, changes = chs, modified = True, error = None\<rparr>,
          snd (write_text (snd (read_text s p)) p c'))"
  | (write_failed) c chs c' e where "fst (read_text s p) = Inr c" "apply_rules rules c [] = (chs, Inr c')"
      "c' \<noteq> c" "\<not> dry" "fst (write_text (snd (read_text s p)) p c') = Inl e"
      "process_file_with rules p dry s =
         (\<lparr>filename = p, changes = chs, modified = True, error = Some e\<rparr>,
          snd (write_text (snd (read_text s p)) p c'))"
proof (cases "fst (read_text s p)")
  case (Inl e)
  then show ?thesis using read_failed process_file_read_failed by blast
next
  case rd: (Inr c)
  obtain chs out where ar: "apply_rules rules c [] = (chs, out)" by (cases "apply_rules rules c []")
  show ?thesis
  proof (cases out)
    case (Inl e)
    with ar have ar': "apply_rules rules c [] = (chs, Inl e)" by simp
    show ?thesis by (rule rule_failed [OF rd ar' process_file_rule_failed [OF rd ar']])
  next
    case (Inr c')
    with ar have ar': "apply_rules rules c [] = (chs, Inr c')" by simp
    show ?thesis
    proof (cases "c' = c")
      case True
      with ar' have ar'': "apply_rules rules c [] = (chs, Inr c)" by simp
      show ?thesis by (rule unchanged [OF rd ar'' process_file_unchanged [OF rd ar'']])
    next
      case ne: False
      show ?thesis
      proof (cases dry)
        case True
        have "process_file_with rules p dry s =
          (\<lparr>filename = p, changes = chs, modified = True, error = None\<rparr>, snd (read_text s p))"
          using process_file_dry [OF rd ar' ne] True by simp
        then show ?thesis by (rule dry [OF rd ar' ne True])
      next
        case nd: False
        show ?thesis
        proof (cases "fst (write_text (snd (read_text s p)) p c')")
          case (Inl e)
          have "process_file_with rules p dry s =
            (\<lparr>filename = p, changes = chs, modified = True, error = Some e\<rparr>,
             snd (write_text (snd (read_text s p)) p c'))"
            using process_file_write_failed [OF rd ar' ne Inl] nd by simp
          then show ?thesis by (rule write_failed [OF rd ar' ne nd Inl])
        next
          case (Inr u)
          have "process_file_with rules p dry s =
            (\<lparr>filename = p, changes = chs, modified = True, error = None\<rparr>,
             snd (write_text (snd (read_text s p)) p c'))"
            using process_file_written [OF rd ar' ne Inr] nd by simp
          then show ?thesis by (rule written [OF rd ar' ne nd Inr])
        qed
      qed
    qed
  qed
qed

lemma process_file_changes:
  "changes (fst (process_file_with rules p dry s)) =
     (case fst (read_text s p) of Inl e \<Rightarrow> [] | Inr c \<Rightarrow> fst (apply_rules rules c []))"
  by (cases rule: process_file_with_cases [of s p rules dry]) simp_all

lemma process_file_modified:
  "modified (fst (process_file_with rules p dry s)) =
     (case fst (read_text s p) of
        Inl e \<Rightarrow> False
      | Inr c \<Rightarrow> (case snd (apply_rules rules c []) of Inl e \<Rightarrow> False | Inr c' \<Rightarrow> c' \<noteq> c))"
  by (cases rule: process_file_with_cases [of s p rules dry]) simp_all

lemma process_file_filename: "filename (fst (process_file_with rules p dry s)) = p"
  by (cases rule: process_file_with_cases [of s p rules dry]) simp_all

lemma process_file_nodes_other:
  "target s p \<noteq> Some x \<Longrightarrow>
     map_of (nodes (snd (process_file_with rules p dry s))) x = map_of (nodes s) x"
  by (cases rule: process_file_with_cases [of s p rules dry]) (simp_all add: write_text_other)

lemma process_file_target:
  "target (snd (process_file_with rules p dry s)) q = target s q"
  by (cases rule: process_file_with_cases [of s p rules dry]) simp_all

lemma process_file_attempts:
  "write_attempts (trace (snd (process_file_with rules p dry s))) =
     write_attempts (trace s) @
       (if modified (fst (process_file_with rules p dry s)) \<and> \<not> dry then [p] else [])"
  by (cases rule: process_file_with_cases [of s p rules dry]) (simp_all add: write_text_trace)

lemma process_file_untouched:
  "dry \<or> \<not> modified (fst (process_file_with rules p dry s)) \<Longrightarrow>
     nodes (snd (process_file_with rules p dry s)) = nodes s"
  by (cases rule: process_file_with_cases [of s p rules dry]) simp_all

lemma process_file_result_cong:
  assumes tg: "target s1 p = target s2 p"
    and eq: "\<And>t. target s2 p = Some t \<Longrightarrow> map_of (nodes s1) t = map_of (nodes s2) t"
  shows "fst (process_file_with rules p dry s1) = fst (process_file_with rules p dry s2)"
proof -
  note rd = read_text_cong [OF tg eq]
  have wr: "fst (write_text (snd (read_text s1 p)) p d) = fst (write_text (snd (read_text s2 p)) p d)" for d
    by (rule write_text_cong) (simp_all add: tg eq)
  show ?thesis
  proof (cases rule: process_file_with_cases [of s1 p rules dry])
    case (read_failed e)
    then show ?thesis using process_file_read_failed [of s2 p e rules dry] rd by simp
  next
    case (rule_failed c chs e)
    then show ?thesis using process_file_rule_failed [of s2 p c rules chs e dry] rd by simp
  next
    case (unchanged c chs)
    then show ?thesis using process_file_unchanged [of s2 p c rules chs dry] rd by simp
  next
    case (dry c chs c')
    then show ?thesis using process_file_dry [of s2 p c rules chs c'] rd by simp
  next
    case (written c chs c' u)
    then show ?thesis using process_file_written [of s2 p c rules chs c' u] rd wr by simp
  next
    case (write_failed c chs c' e)
    then show ?thesis using process_file_write_failed [of s2 p c rules chs c' e] rd wr by simp
  qed
qed

lemma process_file_twice:
  assumes run: "process_file p False s = (r1, s1)" and ok: "error r1 = None"
  shows "changes (fst (process_file p False s1)) = [] \<and> \<not> modified (fst (process_file p False s1)) \<and>
         nodes (snd (process_file p False s1)) = nodes s1"
proof -
  have run': "process_file_with REPLACEMENTS p False s = (r1, s1)"
    using run by (simp only: process_file_def)
  have again: "changes (fst (process_file p False s')) = [] \<and> \<not> modified (fst (process_file p False s')) \<and>
         nodes (snd (process_file p False s')) = nodes s'"
    if rd: "fst (read_text s' p) = Inr c'" and fx: "apply_rules REPLACEMENTS c' [] = ([], Inr c')"
    for s' c'
    using process_file_unchanged [OF rd fx, of False] by (simp add: process_file_def)
  show ?thesis
  proof (cases rule: process_file_with_cases [of s p REPLACEMENTS False])
    case (read_failed e)
    with run' have "r1 = \<lparr>filename = p, changes = [], modified = False, error = Some e\<rparr>" by simp
    with ok show ?thesis by simp
  next
    case (rule_failed c chs e)
    with run' have "r1 = \<lparr>filename = p, changes = chs, modified = False, error = Some e\<rparr>" by simp
    with ok show ?thesis by simp
  next
    case (unchanged c chs)
    from apply_rules_idempotent [OF REPLACEMENTS_var_rules, of c] unchanged(2)
    have fx: "apply_rules REPLACEMENTS c [] = ([], Inr c)" by simp
    have s1: "s1 = snd (read_text s p)" using unchanged(3) run' by simp
    have "fst (read_text s1 p) = fst (read_text s p)"
      unfolding s1 by (rule read_text_same_nodes) simp
    then have "fst (read_text s1 p) = Inr c" using unchanged(1) by simp
    from again [OF this fx] show ?thesis .
  next
    case (dry c chs c')
    then show ?thesis by blast
  next
    case (written c chs c' u)
    from apply_rules_idempotent [OF REPLACEMENTS_var_rules, of c] written(2)
    have fx: "apply_rules REPLACEMENTS c' [] = ([], Inr c')" by simp
    have s1: "s1 = snd (write_text (snd (read_text s p)) p c')"
      using written(6) run' by simp
    have "fst (read_text s1 p) = Inr c'"
      unfolding s1 by (rule read_after_write [OF written(1) written(5)])
    from again [OF this fx] show ?thesis .
  next
    case (write_failed c chs c' e)
    with run' have "r1 = \<lparr>filename = p, changes = chs, modified = True, error = Some e\<rparr>" by simp
    with ok show ?thesis by simp
  qed
qed

section \<open>The loop over the files\<close>

text \<open>
  Whatever the tree: the loop appends one result for every file, in the order of the
  files, and counts the results that have changes.
\<close>

lemma main_loop_shape:
  "main_loop rules dry files (t, m, rs, s) = (t', m', rs', s') \<Longrightarrow>
     \<exists>new. rs' = rs @ new \<and> map filename new = files \<and>
       t' = t + sum_list (map (\<lambda>r. length (changes r)) new) \<and>
       m' = m + length (filter (\<lambda>r. changes r \<noteq> []) new)"
proof (induction files arbitrary: t m rs s)
  case Nil
  then show ?case by simp
next
  case (Cons p files)
  obtain res s1 where pf: "process_file_with rules p dry s = (res, s1)"
    by (cases "process_file_with rules p dry s")
  have fn: "filename res = p" using process_file_filename [of rules p dry s] pf by simp
  let ?t = "if changes res \<noteq> [] then t + length (changes res) else t"
  let ?m = "if changes res \<noteq> [] then m + 1 else m"
  have step: "main_loop rules dry files (?t, ?m, rs @ [res], s1) = (t', m', rs', s')"
    using Cons.prems pf by (simp split: if_splits)
  from Cons.IH [OF step] obtain new where
    1: "rs' = (rs @ [res]) @ new" and 2: "map filename new = files" and
    3: "t' = ?t + sum_list (map (\<lambda>r. length (changes r)) new)" and
    4: "m' = ?m + length (filter (\<lambda>r. changes r \<noteq> []) new)"
    by blast
  have a: "rs' = rs @ (res # new)" using 1 by simp
  have b: "map filename (res # new) = p # files" using 2 fn by simp
  have c: "t' = t + sum_list (map (\<lambda>r. length (changes r)) (res # new))" using 3 by simp
  have d: "m' = m + length (filter (\<lambda>r. changes r \<noteq> []) (res # new))" using 4 by simp
  from a b c d show ?case by (intro exI [of _ "res # new"] conjI)
qed

text \<open>
  When no two of the files are the same file, the result of each is the one that
  \<open>process_file\<close> gives for it on the tree as it was before the loop.
\<close>

lemma main_loop_results:
  "distinct (map (target s) files) \<Longrightarrow> main_loop rules dry files (t, m, rs, s) = (t', m', rs', s') \<Longrightarrow>
     rs' = rs @ map (\<lambda>p. fst (process_file_with rules p dry s)) files \<and>
     t' = t + sum_list (map (\<lambda>p. length (changes (fst (process_file_with rules p dry s)))) files) \<and>
     m' = m + length (filter (\<lambda>p. changes (fst (process_file_with rules p dry s)) \<noteq> []) files)"
proof (induction files arbitrary: t m rs s)
  case Nil
  then show ?case by simp
next
  case (Cons p files)
  obtain res s1 where pf: "process_file_with rules p dry s = (res, s1)"
    by (cases "process_file_with rules p dry s")
  have d: "distinct (map (target s) files)" and pn: "target s p \<notin> target s ` set files"
    using Cons.prems(1) by simp_all
  have tg: "target s1 q = target s q" for q
    using process_file_target [of rules p dry s q] pf by simp
  have other: "map_of (nodes s1) x = map_of (nodes s) x" if "target s p \<noteq> Some x" for x
    using process_file_nodes_other [OF that, of rules dry] pf by simp
  have same: "fst (process_file_with rules q dry s1) = fst (process_file_with rules q dry s)"
    if "q \<in> set files" for q
  proof (rule process_file_result_cong [OF tg])
    fix x assume x: "target s q = Some x"
    have "target s q \<in> target s ` set files" using that by (rule imageI)
    with pn have "target s p \<noteq> target s q" by auto
    with x have "target s p \<noteq> Some x" by simp
    then show "map_of (nodes s1) x = map_of (nodes s) x" by (rule other)
  qed
  have me: "map (target s1) files = map (target s) files" by (simp add: tg)
  have d1: "distinct (map (target s1) files)" unfolding me by (rule d)
  let ?t = "if changes res \<noteq> [] then t + length (changes res) else t"
  let ?m = "if changes res \<noteq> [] then m + 1 else m"
  have step: "main_loop rules dry files (?t, ?m, rs @ [res], s1) = (t', m', rs', s')"
    using Cons.prems(2) pf by (simp split: if_splits)
  from Cons.IH [OF d1 step] have
    1: "rs' = (rs @ [res]) @ map (\<lambda>p. fst (process_file_with rules p dry s1)) files" and
    3: "t' = ?t + sum_list (map (\<lambda>p. length (changes (fst (process_file_with rules p dry s1)))) files)" and
    4: "m' = ?m + length (filter (\<lambda>p. changes (fst (process_file_with rules p dry s1)) \<noteq> []) files)"
    by blast+
  have m1: "map (\<lambda>p. fst (process_file_with rules p dry s1)) files =
            map (\<lambda>p. fst (process_file_with rules p dry s)) files"
    using same by (intro map_cong) auto
  have m2: "map (\<lambda>p. length (changes (fst (process_file_with rules p dry s1)))) files =
            map (\<lambda>p. length (changes (fst (process_file_with rules p dry s)))) files"
    using same by (intro map_cong) auto
  have m3: "filter (\<lambda>p. changes (fst (process_file_with rules p dry s1)) \<noteq> []) files =
            filter (\<lambda>p. changes (fst (process_file_with rules p dry s)) \<noteq> []) files"
    using same by (intro filter_cong) auto
  have "rs' = rs @ map (\<lambda>p. fst (process_file_with rules p dry s)) (p # files)"
    using 1 m1 pf by simp
  moreover have "t' = t + sum_list (map (\<lambda>p. length (changes (fst (process_file_with rules p dry s)))) (p # files))"
    using 3 m2 pf by simp
  moreover have "m' = m + length (filter (\<lambda>p. changes (fst (process_file_with rules p dry s)) \<noteq> []) (p # files))"
    using 4 m3 pf by simp
  ultimately show ?case by blast
qed

lemma main_loop_dry_nodes:
  "main_loop rules True files (t, m, rs, s) = (t', m', rs', s') \<Longrightarrow> nodes s' = nodes s"
proof (induction files arbitrary: t m rs s)
  case Nil
  then show ?case by simp
next
  case (Cons p files)
  obtain res s1 where pf: "process_file_with rules p True s = (res, s1)"
    by (cases "process_file_with rules p True s")
  have "nodes s1 = nodes s" using process_file_untouched [of True rules p s] pf by simp
  moreover have "nodes s' = nodes s1"
    using Cons.prems pf Cons.IH by (simp split: if_splits)
  ultimately show ?case by simp
qed

lemma main_with_results:
  assumes "distinct (map (target s) (find_files s SEARCH_DIR FILE_EXTENSIONS))"
  shows "fst (snd (main_with rules dry s)) =
           map (\<lambda>p. fst (process_file_with rules p dry s)) (find_files s SEARCH_DIR FILE_EXTENSIONS)"
    and "fst (main_with rules dry s) =
           \<lparr>files_scanned = length (find_files s SEARCH_DIR FILE_EXTENSIONS),
            files_modified = length (filter (\<lambda>p. changes (fst (process_file_with rules p dry s)) \<noteq> [])
               (find_files s SEARCH_DIR FILE_EXTENSIONS)),
            sum_changes = sum_list (map (\<lambda>p. length (changes (fst (process_file_with rules p dry s))))
               (find_files s SEARCH_DIR FILE_EXTENSIONS))\<rparr>"
proof -
  let ?files = "find_files s SEARCH_DIR FILE_EXTENSIONS"
  obtain t m rs s' where ml: "main_loop rules dry ?files (0, 0, [], s) = (t, m, rs, s')"
    by (cases "main_loop rules dry ?files (0, 0, [], s)")
  from main_loop_results [OF assms ml] have
    "rs = map (\<lambda>p. fst (process_file_with rules p dry s)) ?files"
    "t = sum_list (map (\<lambda>p. length (changes (fst (process_file_with rules p dry s)))) ?files)"
    "m = length (filter (\<lambda>p. changes (fst (process_file_with rules p dry s)) \<noteq> []) ?files)"
    by simp_all
  then show "fst (snd (main_with rules dry s)) =
           map (\<lambda>p. fst (process_file_with rules p dry s)) ?files"
    and "fst (main_with rules dry s) =
           \<lparr>files_scanned = length ?files,
            files_modified = length (filter (\<lambda>p. changes (fst (process_file_with rules p dry s)) \<noteq> []) ?files),
            sum_changes = sum_list (map (\<lambda>p. length (changes (fst (process_file_with rules p dry s)))) ?files)\<rparr>"
    using ml by (simp_all add: main_with_def Let_def)
qed

lemma main_with_dry_nodes: "nodes (snd (snd (main_with rules True s))) = nodes s"
proof -
  let ?files = "find_files s SEARCH_DIR FILE_EXTENSIONS"
  obtain t m rs s' where ml: "main_loop rules True ?files (0, 0, [], s) = (t, m, rs, s')"
    by (cases "main_loop rules True ?files (0, 0, [], s)")
  from main_loop_dry_nodes [OF ml] ml show ?thesis by (simp add: main_with_def Let_def)
qed

lemma mset_rglob:
  "mset (rglob s d ext) = filter_mset (\<lambda>p. strict_prefix d p \<and> suffix ext (last p)) (mset (map fst (nodes s)))"
  by (simp add: rglob_def)

lemma mset_concat_map:
  "mset (concat (map f xs)) = sum_mset (image_mset (\<lambda>x. mset (f x)) (mset xs))"
  by (induction xs) simp_all

lemma main_with_shape:
  "map filename (fst (snd (main_with rules dry s))) = find_files s SEARCH_DIR FILE_EXTENSIONS"
  "files_modified (fst (main_with rules dry s)) =
     length (filter (\<lambda>r. changes r \<noteq> []) (fst (snd (main_with rules dry s))))"
  "sum_changes (fst (main_with rules dry s)) =
     sum_list (map (\<lambda>r. length (changes r)) (fst (snd (main_with rules dry s))))"
  "files_scanned (fst (main_with rules dry s)) = length (find_files s SEARCH_DIR FILE_EXTENSIONS)"
proof -
  let ?files = "find_files s SEARCH_DIR FILE_EXTENSIONS"
  obtain t m rs s' where ml: "main_loop rules dry ?files (0, 0, [], s) = (t, m, rs, s')"
    by (cases "main_loop rules dry ?files (0, 0, [], s)")
  from main_loop_shape [OF ml] obtain new where
    "rs = [] @ new" "map filename new = ?files"
    "t = 0 + sum_list (map (\<lambda>r. length (changes r)) new)"
    "m = 0 + length (filter (\<lambda>r. changes r \<noteq> []) new)"
    by blast
  then have
    "map filename rs = ?files"
    "t = sum_list (map (\<lambda>r. length (changes r)) rs)"
    "m = length (filter (\<lambda>r. changes r \<noteq> []) rs)"
    by simp_all
  then show
    "map filename (fst (snd (main_with rules dry s))) = ?files"
    "files_modified (fst (main_with rules dry s)) =
       length (filter (\<lambda>r. changes r \<noteq> []) (fst (snd (main_with rules dry s))))"
    "sum_changes (fst (main_with rules dry s)) =
       sum_list (map (\<lambda>r. length (changes r)) (fst (snd (main_with rules dry s))))"
    "files_scanned (fst (main_with rules dry s)) = length ?files"
    using ml by (simp_all add: main_with_def Let_def)
qed

lemma demo_tree_files:
  "distinct (map (target demo_tree) (find_files demo_tree SEARCH_DIR FILE_EXTENSIONS))"
  by code_simp

section \<open>C1: idempotency\<close>

text \<open>
  C1, as stated, fails for \<open>fix_orphaned_syntax\<close>. The removal of an orphaned block
  stops after the line that ends with \<open>})\<close>; the lines behind the block then follow the
  trigger line, and a second run treats the first of them as orphaned when it looks like
  a property. Here the first run removes the line \<open>operation: 1})\<close> and the second run
  removes \<open>return { ok: 1 }\<close>: one further change.
\<close>

theorem fix_orphaned_not_idempotent:
  "fix_orphaned_content
       ''  this.handleErrorEnhanced(error)\<newline>    operation: 1})\<newline>  return { ok: 1 }'' =
     (''  this.handleErrorEnhanced(error)\<newline>  return { ok: 1 }'', 1) \<and>
   fix_orphaned_content ''  this.handleErrorEnhanced(error)\<newline>  return { ok: 1 }'' =
     (''  this.handleErrorEnhanced(error)'', 1)"
  by code_simp

text \<open>
  C1, amended: for every file content, the rules of \<open>REPLACEMENTS\<close> applied to the
  output of their own application find no match and leave the content as it is; so a
  second run of \<open>process_file\<close> on a file that a first run has processed without error
  records no change and leaves the file as it is. And \<open>fix_orphaned_syntax\<close> changes
  nothing in a content that has no trigger line, which therefore is a fixed point.
\<close>

theorem rewrite_idempotent:
  "(\<exists>chs content'. apply_rules REPLACEMENTS content [] = (chs, Inr content') \<and>
      apply_rules REPLACEMENTS content' [] = ([], Inr content')) \<and>
   (process_file p False s = (r1, s1) \<and> error r1 = None \<longrightarrow>
      changes (fst (process_file p False s1)) = [] \<and>
      \<not> modified (fst (process_file p False s1)) \<and>
      nodes (snd (process_file p False s1)) = nodes s1) \<and>
   ((\<forall>l \<in> set (split_nl text). \<not> is_trigger l) \<longrightarrow> fix_orphaned_content text = (text, 0))"
proof -
  have 1: "\<exists>chs content'. apply_rules REPLACEMENTS content [] = (chs, Inr content') \<and>
      apply_rules REPLACEMENTS content' [] = ([], Inr content')"
    by (rule apply_rules_idempotent [OF REPLACEMENTS_var_rules])
  have 2: "process_file p False s = (r1, s1) \<and> error r1 = None \<longrightarrow>
      changes (fst (process_file p False s1)) = [] \<and>
      \<not> modified (fst (process_file p False s1)) \<and>
      nodes (snd (process_file p False s1)) = nodes s1"
    using process_file_twice by blast
  have 3: "(\<forall>l \<in> set (split_nl text). \<not> is_trigger l) \<longrightarrow> fix_orphaned_content text = (text, 0)"
    using fix_orphaned_no_trigger by blast
  from 1 2 3 show ?thesis by (intro conjI)
qed

theorem rewrite_idempotent_witness:
  "(\<exists>chs content'. apply_rules REPLACEMENTS ''a { color: var(--border); }'' [] = (chs, Inr content') \<and>
      apply_rules REPLACEMENTS content' [] = ([], Inr content')) \<and>
   error (fst (process_file [''apps'', ''frontend'', ''src'', ''b.css''] False demo_tree)) = None \<and>
   changes (fst (process_file [''apps'', ''frontend'', ''src'', ''b.css''] False
      (snd (process_file [''apps'', ''frontend'', ''src'', ''b.css''] False demo_tree)))) = [] \<and>
   \<not> modified (fst (process_file [''apps'', ''frontend'', ''src'', ''b.css''] False
      (snd (process_file [''apps'', ''frontend'', ''src'', ''b.css''] False demo_tree)))) \<and>
   filter is_trigger (split_nl ''return { ok: 1 }\<newline>}'') = [] \<and>
   fix_orphaned_content ''return { ok: 1 }\<newline>}'' = (''return { ok: 1 }\<newline>}'', 0)"
proof -
  let ?p = "[''apps'', ''frontend'', ''src'', ''b.css'']"
  let ?r1 = "fst (process_file ?p False demo_tree)"
  let ?s1 = "snd (process_file ?p False demo_tree)"
  have h: "filter is_trigger (split_nl ''return { ok: 1 }\<newline>}'') = []"
    by code_simp
  have b: "\<forall>l \<in> set (split_nl ''return { ok: 1 }\<newline>}''). \<not> is_trigger l"
    using h by (simp only: filter_empty_conv)
  have e: "error ?r1 = None"
    by code_simp
  have run: "process_file ?p False demo_tree = (?r1, ?s1)"
    by (rule prod.collapse [symmetric])
  note c = rewrite_idempotent [of "''a { color: var(--border); }''" ?p demo_tree ?r1 ?s1
      "''return { ok: 1 }\<newline>}''"]
  from c have c1: "\<exists>chs content'.
      apply_rules REPLACEMENTS ''a { color: var(--border); }'' [] = (chs, Inr content') \<and>
      apply_rules REPLACEMENTS content' [] = ([], Inr content')"
    by (rule conjunct1)
  from c have imp: "process_file ?p False demo_tree = (?r1, ?s1) \<and> error ?r1 = None \<longrightarrow>
      changes (fst (process_file ?p False ?s1)) = [] \<and>
      \<not> modified (fst (process_file ?p False ?s1)) \<and>
      nodes (snd (process_file ?p False ?s1)) = nodes ?s1"
    by (rule conjunct2 [THEN conjunct1])
  have pre: "process_file ?p False demo_tree = (?r1, ?s1) \<and> error ?r1 = None"
    using run e by (rule conjI)
  from imp pre have c2: "changes (fst (process_file ?p False ?s1)) = [] \<and>
      \<not> modified (fst (process_file ?p False ?s1)) \<and>
      nodes (snd (process_file ?p False ?s1)) = nodes ?s1"
    by (rule mp)
  from c have "(\<forall>l \<in> set (split_nl ''return { ok: 1 }\<newline>}''). \<not> is_trigger l) \<longrightarrow>
      fix_orphaned_content ''return { ok: 1 }\<newline>}'' = (''return { ok: 1 }\<newline>}'', 0)"
    by (rule conjunct2 [THEN conjunct2])
  from this b have c3:
    "fix_orphaned_content ''return { ok: 1 }\<newline>}'' = (''return { ok: 1 }\<newline>}'', 0)"
    by (rule mp)
  from c1 e c2 [THEN conjunct1] c2 [THEN conjunct2, THEN conjunct1] h c3 show ?thesis
    by (intro conjI)
qed

section \<open>C2: the line of a change record\<close>

text \<open>
  C2, as stated, fails for the loop of \<open>process_file\<close>: the line of a match is
  counted in the content as the rules before have rewritten it, not in the content as
  read. When a rule puts a newline in front of a later match, that match is recorded
  with the line it has after the rewriting. Here the table is \<open>a\<close> to \<open>x\<close>, newline,
  \<open>y\<close> and \<open>b\<close> to \<open>c\<close>, and the file holds \<open>ab\<close>: one line, with the \<open>b\<close> at
  offset 1; its record has line 2.
\<close>

theorem line_counted_after_rewriting:
  "changes (fst (process_file_with [(''a'', ''x\<newline>y''), (''b'', ''c'')] [''f.css''] True
       \<lparr>nodes = [([''f.css''], File True True ''ab'')], trace = []\<rparr>)) =
     [\<lparr>line = 1, old = ''a'', new = ''x\<newline>y''\<rparr>, \<lparr>line = 2, old = ''b'', new = ''c''\<rparr>] \<and>
   split_nl ''ab'' = [''ab''] \<and>
   finditer ''b'' ''ab'' = [1] \<and>
   changes_in_original [(''a'', ''x\<newline>y''), (''b'', ''c'')] ''ab'' =
     [\<lparr>line = 1, old = ''a'', new = ''x\<newline>y''\<rparr>, \<lparr>line = 1, old = ''b'', new = ''c''\<rparr>]"
  by code_simp

text \<open>
  C2, amended: with the table \<open>REPLACEMENTS\<close>, for every content, the change records
  are the records of the matches of every rule in the original content, each with the
  number, counted from 1, of the line of the original content in which the match
  starts. The loop counts the lines in the content as the rules before have rewritten
  it (\<open>sequential\<close>); for \<open>REPLACEMENTS\<close> the number is the same, because no rule of
  that table adds or removes a newline, or makes or destroys a match of another rule.
  The number is pinned by the third part: an offset inside the line with index \<open>k\<close> has
  the number \<open>k + 1\<close>; and a match starts where the literal occurs.
\<close>

theorem change_lines:
  "fst (apply_rules REPLACEMENTS content []) = changes_in_original REPLACEMENTS content \<and>
   (fst (read_text s p) = Inr content \<longrightarrow>
      changes (fst (process_file p dry s)) = changes_in_original REPLACEMENTS content) \<and>
   (k < length ls \<and> j \<le> length (ls ! k) \<and> (\<forall>l \<in> set ls. newline \<notin> set l) \<longrightarrow>
      line_of (join_nl ls) (offset_in ls k j) = Suc k) \<and>
   (start \<in> set (finditer lit subject) \<longrightarrow> prefix lit (drop start subject)) \<and>
   (list_all plain_rule rules \<longrightarrow>
      fst (apply_rules rules input []) = fst (sequential rules input))"
proof -
  have 1: "fst (apply_rules REPLACEMENTS content []) = changes_in_original REPLACEMENTS content"
    by (rule apply_rules_changes_original [OF REPLACEMENTS_line_rules])
  have 2: "fst (read_text s p) = Inr content \<longrightarrow>
      changes (fst (process_file p dry s)) = changes_in_original REPLACEMENTS content"
    using 1 by (simp add: process_file_def process_file_changes)
  have 3: "k < length ls \<and> j \<le> length (ls ! k) \<and> (\<forall>l \<in> set ls. newline \<notin> set l) \<longrightarrow>
      line_of (join_nl ls) (offset_in ls k j) = Suc k"
    using line_of_offset [of k ls j] by blast
  have 4: "start \<in> set (finditer lit subject) \<longrightarrow> prefix lit (drop start subject)"
    using finditer_occurrence [of start lit subject] by blast
  have 5: "list_all plain_rule rules \<longrightarrow>
      fst (apply_rules rules input []) = fst (sequential rules input)"
    using apply_rules_sequential [of rules input] by simp
  from 1 2 3 4 5 show ?thesis by (intro conjI)
qed

text \<open>
  The witness is a file of three lines with matches of four rules; the match of
  \<open>var(--ring)\<close> on line 3 is at offset 121 of the original content and, after the
  rule for \<open>var(--border)\<close> has lengthened line 2, at offset 127 of the content in
  which the loop finds it.
\<close>

theorem change_lines_witness:
  "fst (read_text
     \<lparr>nodes = [([''src'', ''t.css''], File True True
        ''h1 { font-size: var(--font-body); }\<newline>p { line-height: var(--line-height-body); color: var(--border); }\<newline>a { outline-color: var(--ring); }'')],
      trace = []\<rparr> [''src'', ''t.css'']) =
     Inr ''h1 { font-size: var(--font-body); }\<newline>p { line-height: var(--line-height-body); color: var(--border); }\<newline>a { outline-color: var(--ring); }'' \<and>
   changes (fst (process_file [''src'', ''t.css''] False
     \<lparr>nodes = [([''src'', ''t.css''], File True True
        ''h1 { font-size: var(--font-body); }\<newline>p { line-height: var(--line-height-body); color: var(--border); }\<newline>a { outline-color: var(--ring); }'')],
      trace = []\<rparr>)) =
     [\<lparr>line = 2, old = ''var(--border)'', new = ''var(--color-border)''\<rparr>,
      \<lparr>line = 3, old = ''var(--ring)'', new = ''var(--color-ring)''\<rparr>,
      \<lparr>line = 2, old = ''var(--line-height-body)'', new = ''var(--leading-body)''\<rparr>,
      \<lparr>line = 1, old = ''var(--font-body)'', new = ''var(--text-body)''\<rparr>] \<and>
   join_nl [''h1 { font-size: var(--font-body); }'',
            ''p { line-height: var(--line-height-body); color: var(--border); }'',
            ''a { outline-color: var(--ring); }''] =
     ''h1 { font-size: var(--font-body); }\<newline>p { line-height: var(--line-height-body); color: var(--border); }\<newline>a { outline-color: var(--ring); }'' \<and>
   filter (\<lambda>l. newline \<in> set l)
     [''h1 { font-size: var(--font-body); }'',
      ''p { line-height: var(--line-height-body); color: var(--border); }'',
      ''a { outline-color: var(--ring); }''] = [] \<and>
   offset_in [''h1 { font-size: var(--font-body); }'',
              ''p { line-height: var(--line-height-body); color: var(--border); }'',
              ''a { outline-color: var(--ring); }''] 2 19 = 121 \<and>
   line_of ''h1 { font-size: var(--font-body); }\<newline>p { line-height: var(--line-height-body); color: var(--border); }\<newline>a { outline-color: var(--ring); }'' 121 = 3 \<and>
   finditer ''var(--ring)''
     ''h1 { font-size: var(--font-body); }\<newline>p { line-height: var(--line-height-body); color: var(--border); }\<newline>a { outline-color: var(--ring); }'' = [121] \<and>
   prefix ''var(--ring)'' (drop 121
     ''h1 { font-size: var(--font-body); }\<newline>p { line-height: var(--line-height-body); color: var(--border); }\<newline>a { outline-color: var(--ring); }'') \<and>
   finditer ''var(--ring)''
     (sub ''var(--border)'' ''var(--color-border)''
       ''h1 { font-size: var(--font-body); }\<newline>p { line-height: var(--line-height-body); color: var(--border); }\<newline>a { outline-color: var(--ring); }'') = [127] \<and>
   list_all plain_rule [(''a'', ''x\<newline>y''), (''b'', ''c'')] \<and>
   fst (apply_rules [(''a'', ''x\<newline>y''), (''b'', ''c'')] ''ab'' []) =
     fst (sequential [(''a'', ''x\<newline>y''), (''b'', ''c'')] ''ab'')"
proof -
  let ?l1 = "''h1 { font-size: var(--font-body); }''"
  let ?l2 = "''p { line-height: var(--line-height-body); color: var(--border); }''"
  let ?l3 = "''a { outline-color: var(--ring); }''"
  let ?c = "''h1 { font-size: var(--font-body); }\<newline>p { line-height: var(--line-height-body); color: var(--border); }\<newline>a { outline-color: var(--ring); }''"
  let ?p = "[''src'', ''t.css'']"
  let ?T = "\<lparr>nodes = [(?p, File True True ?c)], trace = []\<rparr>"
  let ?tbl = "[(''a'', ''x\<newline>y''), (''b'', ''c'')]"
  note w = change_lines [where content = ?c and s = ?T and p = ?p and dry = False and k = 2 and
      ls = "[?l1, ?l2, ?l3]" and j = 19 and start = 121 and lit = "''var(--ring)''" and subject = ?c and
      rules = ?tbl and input = "''ab''"]
  have rd: "fst (read_text ?T ?p) = Inr ?c"
    by code_simp
  have ev: "changes_in_original REPLACEMENTS ?c =
     [\<lparr>line = 2, old = ''var(--border)'', new = ''var(--color-border)''\<rparr>,
      \<lparr>line = 3, old = ''var(--ring)'', new = ''var(--color-ring)''\<rparr>,
      \<lparr>line = 2, old = ''var(--line-height-body)'', new = ''var(--leading-body)''\<rparr>,
      \<lparr>line = 1, old = ''var(--font-body)'', new = ''var(--text-body)''\<rparr>]"
    by code_simp
  from w have "fst (read_text ?T ?p) = Inr ?c \<longrightarrow>
      changes (fst (process_file ?p False ?T)) = changes_in_original REPLACEMENTS ?c"
    by (rule conjunct2 [THEN conjunct1])
  from this rd have "changes (fst (process_file ?p False ?T)) = changes_in_original REPLACEMENTS ?c"
    by (rule mp)
  then have ch: "changes (fst (process_file ?p False ?T)) =
     [\<lparr>line = 2, old = ''var(--border)'', new = ''var(--color-border)''\<rparr>,
      \<lparr>line = 3, old = ''var(--ring)'', new = ''var(--color-ring)''\<rparr>,
      \<lparr>line = 2, old = ''var(--line-height-body)'', new = ''var(--leading-body)''\<rparr>,
      \<lparr>line = 1, old = ''var(--font-body)'', new = ''var(--text-body)''\<rparr>]"
    unfolding ev .
  have jn: "join_nl [?l1, ?l2, ?l3] = ?c"
    by code_simp
  have nl: "filter (\<lambda>l. newline \<in> set l) [?l1, ?l2, ?l3] = []"
    by code_simp
  then have nl': "\<forall>l \<in> set [?l1, ?l2, ?l3]. newline \<notin> set l"
    by (simp only: filter_empty_conv)
  have len: "(2::nat) < length [?l1, ?l2, ?l3]" "19 \<le> length ([?l1, ?l2, ?l3] ! 2)"
    by simp_all
  have off: "offset_in [?l1, ?l2, ?l3] 2 19 = 121"
    by code_simp
  from w have "2 < length [?l1, ?l2, ?l3] \<and> 19 \<le> length ([?l1, ?l2, ?l3] ! 2) \<and>
      (\<forall>l \<in> set [?l1, ?l2, ?l3]. newline \<notin> set l) \<longrightarrow>
      line_of (join_nl [?l1, ?l2, ?l3]) (offset_in [?l1, ?l2, ?l3] 2 19) = Suc 2"
    by (rule conjunct2 [THEN conjunct2, THEN conjunct1])
  moreover have "2 < length [?l1, ?l2, ?l3] \<and> 19 \<le> length ([?l1, ?l2, ?l3] ! 2) \<and>
      (\<forall>l \<in> set [?l1, ?l2, ?l3]. newline \<notin> set l)"
    using len nl' by (intro conjI)
  ultimately have "line_of (join_nl [?l1, ?l2, ?l3]) (offset_in [?l1, ?l2, ?l3] 2 19) = Suc 2"
    by (rule mp)
  then have ln: "line_of ?c 121 = 3"
    unfolding jn off by simp
  have fi: "finditer ''var(--ring)'' ?c = [121]"
    by code_simp
  then have mem: "121 \<in> set (finditer ''var(--ring)'' ?c)"
    by simp
  from w have "121 \<in> set (finditer ''var(--ring)'' ?c) \<longrightarrow> prefix ''var(--ring)'' (drop 121 ?c)"
    by (rule conjunct2 [THEN conjunct2, THEN conjunct2, THEN conjunct1])
  from this mem have oc: "prefix ''var(--ring)'' (drop 121 ?c)"
    by (rule mp)
  have fi': "finditer ''var(--ring)'' (sub ''var(--border)'' ''var(--color-border)'' ?c) = [127]"
    by code_simp
  have pl: "list_all plain_rule ?tbl"
    by code_simp
  from w have "list_all plain_rule ?tbl \<longrightarrow>
      fst (apply_rules ?tbl ''ab'' []) = fst (sequential ?tbl ''ab'')"
    by (rule conjunct2 [THEN conjunct2, THEN conjunct2, THEN conjunct2])
  from this pl have sq: "fst (apply_rules ?tbl ''ab'' []) = fst (sequential ?tbl ''ab'')"
    by (rule mp)
  from rd ch jn nl off ln fi oc fi' pl sq show ?thesis by (intro conjI)
qed

section \<open>C3: the rules are applied one after the other\<close>

text \<open>
  C3: for every table inside the modelled fragment and every content, the loop is the
  substitution rule by rule (\<open>sequential\<close>): each rule looks for its matches in the
  text that the rules before it have produced, and replaces them there. For the rules
  \<open>a\<close> to \<open>b\<close> and \<open>b\<close> to \<open>c\<close> this gives, for every content, in the order given the
  content with every \<open>a\<close> and every \<open>b\<close> turned into \<open>c\<close>, and in the other order the
  content with every \<open>b\<close> turned into \<open>c\<close> and every \<open>a\<close> into \<open>b\<close>; on every content
  with an \<open>a\<close> the two final contents differ. So there are two rules and a text for
  which both orders end without error and with different contents.
\<close>

theorem rules_applied_in_order:
  "(list_all plain_rule rules \<longrightarrow>
      apply_rules rules content [] =
        (fst (sequential rules content), Inr (snd (sequential rules content)))) \<and>
   snd (apply_rules [(''a'', ''b''), (''b'', ''c'')] content []) =
     Inr (map (\<lambda>x. if x = CHR ''a'' \<or> x = CHR ''b'' then CHR ''c'' else x) content) \<and>
   snd (apply_rules [(''b'', ''c''), (''a'', ''b'')] content []) =
     Inr (map (\<lambda>x. if x = CHR ''b'' then CHR ''c'' else if x = CHR ''a'' then CHR ''b'' else x)
            content) \<and>
   (CHR ''a'' \<in> set content \<longrightarrow>
      snd (apply_rules [(''a'', ''b''), (''b'', ''c'')] content []) \<noteq>
      snd (apply_rules [(''b'', ''c''), (''a'', ''b'')] content [])) \<and>
   (\<exists>A B text c1 c2. snd (apply_rules [A, B] text []) = Inr c1 \<and>
      snd (apply_rules [B, A] text []) = Inr c2 \<and> c1 \<noteq> c2)"
proof -
  let ?A = "(''a'', ''b'')" and ?B = "(''b'', ''c'')"
  let ?f = "\<lambda>x. if x = CHR ''a'' \<or> x = CHR ''b'' then CHR ''c'' else x"
  let ?g = "\<lambda>x. if x = CHR ''b'' then CHR ''c'' else if x = CHR ''a'' then CHR ''b'' else x"
  have 1: "list_all plain_rule rules \<longrightarrow>
      apply_rules rules content [] =
        (fst (sequential rules content), Inr (snd (sequential rules content)))"
    using apply_rules_sequential [of rules content] by blast
  have pa: "list_all plain_rule [?A, ?B]" and pb: "list_all plain_rule [?B, ?A]"
    by code_simp+
  have la: "literal_of ''a'' = ''a''" and lb: "literal_of ''b'' = ''b''"
    by code_simp+
  have sa: "snd (sequential [?A, ?B] t) = sub ''b'' ''c'' (sub ''a'' ''b'' t)" for t
    by (simp add: sequential_def rule_step_def la lb)
  have sb: "snd (sequential [?B, ?A] t) = sub ''a'' ''b'' (sub ''b'' ''c'' t)" for t
    by (simp add: sequential_def rule_step_def la lb)
  have ma: "sub ''b'' ''c'' (sub ''a'' ''b'' t) = map ?f t" for t
    unfolding sub_char by (induction t) simp_all
  have mb: "sub ''a'' ''b'' (sub ''b'' ''c'' t) = map ?g t" for t
    unfolding sub_char by (induction t) simp_all
  have 2: "snd (apply_rules [?A, ?B] t []) = Inr (map ?f t)" for t
    unfolding apply_rules_sequential [OF pa] sa ma by simp
  have 3: "snd (apply_rules [?B, ?A] t []) = Inr (map ?g t)" for t
    unfolding apply_rules_sequential [OF pb] sb mb by simp
  have ne: "map ?f t \<noteq> map ?g t" if "CHR ''a'' \<in> set t" for t
  proof
    assume "map ?f t = map ?g t"
    then have "\<forall>x \<in> set t. ?f x = ?g x" by (simp only: map_eq_conv)
    with that have "?f (CHR ''a'') = ?g (CHR ''a'')" by blast
    then show False by simp
  qed
  have 4: "CHR ''a'' \<in> set content \<longrightarrow>
      snd (apply_rules [?A, ?B] content []) \<noteq> snd (apply_rules [?B, ?A] content [])"
    unfolding 2 3 using ne [of content] by simp
  have "snd (apply_rules [?A, ?B] ''a'' []) = Inr (map ?f ''a'') \<and>
        snd (apply_rules [?B, ?A] ''a'' []) = Inr (map ?g ''a'') \<and> map ?f ''a'' \<noteq> map ?g ''a''"
    using 2 [of "''a''"] 3 [of "''a''"] ne [of "''a''"] by simp
  then have 5: "\<exists>A B text c1 c2. snd (apply_rules [A, B] text []) = Inr c1 \<and>
      snd (apply_rules [B, A] text []) = Inr c2 \<and> c1 \<noteq> c2"
    by blast
  from 1 2 [of content] 3 [of content] 4 5 show ?thesis by (intro conjI)
qed

text \<open>
  The witness is the text \<open>a\<close>: in the order given the second rule finds the \<open>b\<close> that
  the first rule has written, and the result is \<open>c\<close>; in the other order the rule for
  \<open>b\<close> finds nothing, and the result is \<open>b\<close>.
\<close>

theorem rules_applied_in_order_witness:
  "list_all plain_rule [(''a'', ''b''), (''b'', ''c'')] \<and>
   apply_rules [(''a'', ''b''), (''b'', ''c'')] ''a'' [] =
     ([\<lparr>line = 1, old = ''a'', new = ''b''\<rparr>, \<lparr>line = 1, old = ''b'', new = ''c''\<rparr>], Inr ''c'') \<and>
   list_all plain_rule [(''b'', ''c''), (''a'', ''b'')] \<and>
   apply_rules [(''b'', ''c''), (''a'', ''b'')] ''a'' [] =
     ([\<lparr>line = 1, old = ''a'', new = ''b''\<rparr>], Inr ''b'') \<and>
   CHR ''a'' \<in> set ''a'' \<and>
   snd (apply_rules [(''a'', ''b''), (''b'', ''c'')] ''a'' []) \<noteq>
   snd (apply_rules [(''b'', ''c''), (''a'', ''b'')] ''a'' [])"
proof -
  let ?A = "(''a'', ''b'')" and ?B = "(''b'', ''c'')"
  note w1 = rules_applied_in_order [where rules = "[?A, ?B]" and content = "''a''"]
  note w2 = rules_applied_in_order [where rules = "[?B, ?A]" and content = "''a''"]
  have pa: "list_all plain_rule [?A, ?B]" and pb: "list_all plain_rule [?B, ?A]"
    by code_simp+
  have ea: "sequential [?A, ?B] ''a'' =
      ([\<lparr>line = 1, old = ''a'', new = ''b''\<rparr>, \<lparr>line = 1, old = ''b'', new = ''c''\<rparr>], ''c'')"
    by code_simp
  have eb: "sequential [?B, ?A] ''a'' = ([\<lparr>line = 1, old = ''a'', new = ''b''\<rparr>], ''b'')"
    by code_simp
  from w1 have "list_all plain_rule [?A, ?B] \<longrightarrow>
      apply_rules [?A, ?B] ''a'' [] =
        (fst (sequential [?A, ?B] ''a''), Inr (snd (sequential [?A, ?B] ''a'')))"
    by (rule conjunct1)
  from this pa have "apply_rules [?A, ?B] ''a'' [] =
        (fst (sequential [?A, ?B] ''a''), Inr (snd (sequential [?A, ?B] ''a'')))"
    by (rule mp)
  then have ra: "apply_rules [?A, ?B] ''a'' [] =
     ([\<lparr>line = 1, old = ''a'', new = ''b''\<rparr>, \<lparr>line = 1, old = ''b'', new = ''c''\<rparr>], Inr ''c'')"
    unfolding ea by simp
  from w2 have "list_all plain_rule [?B, ?A] \<longrightarrow>
      apply_rules [?B, ?A] ''a'' [] =
        (fst (sequential [?B, ?A] ''a''), Inr (snd (sequential [?B, ?A] ''a'')))"
    by (rule conjunct1)
  from this pb have "apply_rules [?B, ?A] ''a'' [] =
        (fst (sequential [?B, ?A] ''a''), Inr (snd (sequential [?B, ?A] ''a'')))"
    by (rule mp)
  then have rb: "apply_rules [?B, ?A] ''a'' [] = ([\<lparr>line = 1, old = ''a'', new = ''b''\<rparr>], Inr ''b'')"
    unfolding eb by simp
  have mem: "CHR ''a'' \<in> set ''a''" by simp
  from w1 have "CHR ''a'' \<in> set ''a'' \<longrightarrow>
      snd (apply_rules [?A, ?B] ''a'' []) \<noteq> snd (apply_rules [?B, ?A] ''a'' [])"
    by (rule conjunct2 [THEN conjunct2, THEN conjunct2, THEN conjunct1])
  from this mem have df: "snd (apply_rules [?A, ?B] ''a'' []) \<noteq> snd (apply_rules [?B, ?A] ''a'' [])"
    by (rule mp)
  from pa ra pb rb mem df show ?thesis by (intro conjI)
qed

section \<open>C4: the scenario with \<open>var(--border)\<close> on two lines\<close>

text \<open>
  C4: when the file has \<open>var(--border)\<close> exactly twice, on lines 1 and 2, and no other
  pattern of the table, then \<open>process_file\<close> returns \<open>modified = True\<close> and exactly the
  two change records for lines 1 and 2; the rewritten content is the original with both
  matches replaced by \<open>var(--color-border)\<close>, it has no occurrence of \<open>var(--border)\<close>,
  and it is the content of the file after a run that applies the changes without error:
  the node that the path names then is a regular file with this text, and reading the
  path gives it.
  The witness is the file of the scenario: \<open>a { border-color: var(--border); }\<close> on two
  lines.
\<close>

theorem border_scenario:
  assumes rd: "fst (read_text s p) = Inr content"
    and h1: "map (line_of content) (finditer ''var(--border)'' content) = [1, 2]"
    and h2: "\<forall>(pattern, replacement) \<in> set (tl REPLACEMENTS). \<not> contains (literal_of pattern) content"
  shows "modified (fst (process_file p dry s)) \<and>
     changes (fst (process_file p dry s)) =
       [\<lparr>line = 1, old = ''var(--border)'', new = ''var(--color-border)''\<rparr>,
        \<lparr>line = 2, old = ''var(--border)'', new = ''var(--color-border)''\<rparr>] \<and>
     snd (apply_rules REPLACEMENTS content []) =
       Inr (sub ''var(--border)'' ''var(--color-border)'' content) \<and>
     \<not> contains ''var(--border)'' (sub ''var(--border)'' ''var(--color-border)'' content) \<and>
     (\<not> dry \<and> error (fst (process_file p dry s)) = None \<longrightarrow>
        (\<exists>t r w. target s p = Some t \<and>
           map_of (nodes (snd (process_file p dry s))) t =
             Some (File r w (sub ''var(--border)'' ''var(--color-border)'' content))) \<and>
        fst (read_text (snd (process_file p dry s)) p) =
          Inr (sub ''var(--border)'' ''var(--color-border)'' content))"
proof -
  let ?c1 = "sub ''var(--border)'' ''var(--color-border)'' content"
  note b = border_rule_alone [OF h1 h2]
  have 1: "modified (fst (process_file p dry s))"
    using rd b(1,2) by (simp add: process_file_def process_file_modified)
  have 2: "changes (fst (process_file p dry s)) =
       [\<lparr>line = 1, old = ''var(--border)'', new = ''var(--color-border)''\<rparr>,
        \<lparr>line = 2, old = ''var(--border)'', new = ''var(--color-border)''\<rparr>]"
    using rd b(1) by (simp add: process_file_def process_file_changes)
  have 3: "snd (apply_rules REPLACEMENTS content []) = Inr ?c1" using b(1) by simp
  have 5: "(\<exists>t r w. target s p = Some t \<and>
              map_of (nodes (snd (process_file p dry s))) t = Some (File r w ?c1)) \<and>
           fst (read_text (snd (process_file p dry s)) p) = Inr ?c1"
    if "\<not> dry" "error (fst (process_file p dry s)) = None"
    using that unfolding process_file_def
  proof (cases rule: process_file_with_cases [of s p REPLACEMENTS dry])
    case (written c chs c' u)
    then have eq: "c = content" "c' = ?c1" using rd b(1) by simp_all
    have wr: "fst (write_text (snd (read_text s p)) p ?c1) = Inr u"
      using written(5) eq by simp
    have st: "snd (process_file_with REPLACEMENTS p dry s) = snd (write_text (snd (read_text s p)) p ?c1)"
      using written(6) eq by simp
    from write_text_same [OF wr] have
      "\<exists>t r w. target s p = Some t \<and>
         map_of (nodes (snd (write_text (snd (read_text s p)) p ?c1))) t = Some (File r w ?c1)"
      by simp
    moreover have "fst (read_text (snd (write_text (snd (read_text s p)) p ?c1)) p) = Inr ?c1"
      by (rule read_after_write [OF rd wr])
    ultimately show "(\<exists>t r w. target s p = Some t \<and>
          map_of (nodes (snd (process_file_with REPLACEMENTS p dry s))) t = Some (File r w ?c1)) \<and>
        fst (read_text (snd (process_file_with REPLACEMENTS p dry s)) p) = Inr ?c1"
      unfolding st by (rule conjI)
  next
    case (unchanged c chs)
    then show "(\<exists>t r w. target s p = Some t \<and>
          map_of (nodes (snd (process_file_with REPLACEMENTS p dry s))) t = Some (File r w ?c1)) \<and>
        fst (read_text (snd (process_file_with REPLACEMENTS p dry s)) p) = Inr ?c1"
      using rd b(1,2) by simp
  qed (use rd b(1) in simp_all)
  from 1 2 3 b(3) 5 show ?thesis by blast
qed

theorem border_scenario_witness:
  "fst (read_text demo_tree [''apps'', ''frontend'', ''src'', ''b.css'']) =
     Inr ''a { border-color: var(--border); }\<newline>a { border-color: var(--border); }'' \<and>
   map (line_of ''a { border-color: var(--border); }\<newline>a { border-color: var(--border); }'')
     (finditer ''var(--border)''
        ''a { border-color: var(--border); }\<newline>a { border-color: var(--border); }'') = [1, 2] \<and>
   filter (\<lambda>(pattern, replacement). contains (literal_of pattern)
       ''a { border-color: var(--border); }\<newline>a { border-color: var(--border); }'')
     (tl REPLACEMENTS) = [] \<and>
   modified (fst (process_file [''apps'', ''frontend'', ''src'', ''b.css''] False demo_tree)) \<and>
   changes (fst (process_file [''apps'', ''frontend'', ''src'', ''b.css''] False demo_tree)) =
     [\<lparr>line = 1, old = ''var(--border)'', new = ''var(--color-border)''\<rparr>,
      \<lparr>line = 2, old = ''var(--border)'', new = ''var(--color-border)''\<rparr>] \<and>
   snd (apply_rules REPLACEMENTS
         ''a { border-color: var(--border); }\<newline>a { border-color: var(--border); }'' []) =
     Inr (sub ''var(--border)'' ''var(--color-border)''
            ''a { border-color: var(--border); }\<newline>a { border-color: var(--border); }'') \<and>
   sub ''var(--border)'' ''var(--color-border)''
       ''a { border-color: var(--border); }\<newline>a { border-color: var(--border); }'' =
     ''a { border-color: var(--color-border); }\<newline>a { border-color: var(--color-border); }'' \<and>
   \<not> contains ''var(--border)''
     ''a { border-color: var(--color-border); }\<newline>a { border-color: var(--color-border); }'' \<and>
   error (fst (process_file [''apps'', ''frontend'', ''src'', ''b.css''] False demo_tree)) = None \<and>
   fst (read_text (snd (process_file [''apps'', ''frontend'', ''src'', ''b.css''] False demo_tree))
      [''apps'', ''frontend'', ''src'', ''b.css'']) =
     Inr ''a { border-color: var(--color-border); }\<newline>a { border-color: var(--color-border); }''"
proof -
  let ?p = "[''apps'', ''frontend'', ''src'', ''b.css'']"
  let ?c = "''a { border-color: var(--border); }\<newline>a { border-color: var(--border); }''"
  let ?c' = "''a { border-color: var(--color-border); }\<newline>a { border-color: var(--color-border); }''"
  have rd: "fst (read_text demo_tree ?p) = Inr ?c"
    by code_simp
  have h1: "map (line_of ?c) (finditer ''var(--border)'' ?c) = [1, 2]"
    by code_simp
  have f: "filter (\<lambda>(pattern, replacement). contains (literal_of pattern) ?c) (tl REPLACEMENTS) = []"
    by code_simp
  then have h2: "\<forall>(pattern, replacement) \<in> set (tl REPLACEMENTS). \<not> contains (literal_of pattern) ?c"
    by (simp only: filter_empty_conv) auto
  have ev: "sub ''var(--border)'' ''var(--color-border)'' ?c = ?c'"
    by code_simp
  note w = border_scenario [OF rd h1 h2, of False]
  from w have 1: "modified (fst (process_file ?p False demo_tree))" by (rule conjunct1)
  from w have 2: "changes (fst (process_file ?p False demo_tree)) =
     [\<lparr>line = 1, old = ''var(--border)'', new = ''var(--color-border)''\<rparr>,
      \<lparr>line = 2, old = ''var(--border)'', new = ''var(--color-border)''\<rparr>]"
    by (rule conjunct2 [THEN conjunct1])
  from w have 3: "snd (apply_rules REPLACEMENTS ?c []) =
     Inr (sub ''var(--border)'' ''var(--color-border)'' ?c)"
    by (rule conjunct2 [THEN conjunct2, THEN conjunct1])
  from w have "\<not> contains ''var(--border)'' (sub ''var(--border)'' ''var(--color-border)'' ?c)"
    by (rule conjunct2 [THEN conjunct2, THEN conjunct2, THEN conjunct1])
  then have 4: "\<not> contains ''var(--border)'' ?c'" unfolding ev .
  have ok: "error (fst (process_file ?p False demo_tree)) = None"
    by code_simp
  from w have "\<not> False \<and> error (fst (process_file ?p False demo_tree)) = None \<longrightarrow>
      (\<exists>t r w. target demo_tree ?p = Some t \<and>
         map_of (nodes (snd (process_file ?p False demo_tree))) t =
           Some (File r w (sub ''var(--border)'' ''var(--color-border)'' ?c))) \<and>
      fst (read_text (snd (process_file ?p False demo_tree)) ?p) =
        Inr (sub ''var(--border)'' ''var(--color-border)'' ?c)"
    by (rule conjunct2 [THEN conjunct2, THEN conjunct2, THEN conjunct2])
  moreover have "\<not> False \<and> error (fst (process_file ?p False demo_tree)) = None"
    using ok by simp
  ultimately have "(\<exists>t r w. target demo_tree ?p = Some t \<and>
         map_of (nodes (snd (process_file ?p False demo_tree))) t =
           Some (File r w (sub ''var(--border)'' ''var(--color-border)'' ?c))) \<and>
      fst (read_text (snd (process_file ?p False demo_tree)) ?p) =
        Inr (sub ''var(--border)'' ''var(--color-border)'' ?c)"
    by (rule mp)
  then have "fst (read_text (snd (process_file ?p False demo_tree)) ?p) =
        Inr (sub ''var(--border)'' ''var(--color-border)'' ?c)"
    by (rule conjunct2)
  then have 5: "fst (read_text (snd (process_file ?p False demo_tree)) ?p) = Inr ?c'"
    unfolding ev .
  from rd h1 f 1 2 3 ev 4 ok 5 show ?thesis by (intro conjI)
qed

section \<open>C5: a dry run computes what a real run computes\<close>

text \<open>
  C5, as stated, fails when two of the paths that \<open>find_files\<close> returns name the
  same file. The real run rewrites the file through the first path and then finds no
  match through the second; the dry run finds the matches through both. Here \<open>b.css\<close>
  is a link to \<open>a.css\<close>, which has one match: the dry run reports two modified files
  and two changes, the real run one and one.
\<close>

theorem dry_run_differs_on_linked_file:
  "main True
     \<lparr>nodes = [([''apps'', ''frontend'', ''src'', ''a.css''], File True True ''x { color: var(--border); }''),
               ([''apps'', ''frontend'', ''src'', ''b.css''], Link [''apps'', ''frontend'', ''src'', ''a.css''])],
      trace = []\<rparr> =
     (\<lparr>files_scanned = 2, files_modified = 2, sum_changes = 2\<rparr>,
      [\<lparr>filename = [''apps'', ''frontend'', ''src'', ''a.css''],
        changes = [\<lparr>line = 1, old = ''var(--border)'', new = ''var(--color-border)''\<rparr>],
        modified = True, error = None\<rparr>,
       \<lparr>filename = [''apps'', ''frontend'', ''src'', ''b.css''],
        changes = [\<lparr>line = 1, old = ''var(--border)'', new = ''var(--color-border)''\<rparr>],
        modified = True, error = None\<rparr>],
      \<lparr>nodes = [([''apps'', ''frontend'', ''src'', ''a.css''], File True True ''x { color: var(--border); }''),
                ([''apps'', ''frontend'', ''src'', ''b.css''], Link [''apps'', ''frontend'', ''src'', ''a.css''])],
       trace = [ReadOp [''apps'', ''frontend'', ''src'', ''a.css''],
                ReadOp [''apps'', ''frontend'', ''src'', ''b.css'']]\<rparr>) \<and>
   main False
     \<lparr>nodes = [([''apps'', ''frontend'', ''src'', ''a.css''], File True True ''x { color: var(--border); }''),
               ([''apps'', ''frontend'', ''src'', ''b.css''], Link [''apps'', ''frontend'', ''src'', ''a.css''])],
      trace = []\<rparr> =
     (\<lparr>files_scanned = 2, files_modified = 1, sum_changes = 1\<rparr>,
      [\<lparr>filename = [''apps'', ''frontend'', ''src'', ''a.css''],
        changes = [\<lparr>line = 1, old = ''var(--border)'', new = ''var(--color-border)''\<rparr>],
        modified = True, error = None\<rparr>,
       \<lparr>filename = [''apps'', ''frontend'', ''src'', ''b.css''],
        changes = [], modified = False, error = None\<rparr>],
      \<lparr>nodes = [([''apps'', ''frontend'', ''src'', ''a.css''],
                  File True True ''x { color: var(--color-border); }''),
                ([''apps'', ''frontend'', ''src'', ''b.css''], Link [''apps'', ''frontend'', ''src'', ''a.css''])],
       trace = [ReadOp [''apps'', ''frontend'', ''src'', ''a.css''],
                WriteOp [''apps'', ''frontend'', ''src'', ''a.css''] ''x { color: var(--color-border); }'',
                ReadOp [''apps'', ''frontend'', ''src'', ''b.css'']]\<rparr>)"
  by code_simp

text \<open>
  C5, amended: for one file on one tree, \<open>process_file\<close> gives the same change records
  and the same \<open>modified\<close> flag with and without dry-run. When no two of the paths that
  \<open>find_files\<close> returns name the same file, a dry run and a real run of \<open>main\<close> give the
  same change records and the same \<open>modified\<close> flag for every file and the same counts
  (files scanned, files modified, total changes). The dry run leaves every file as it
  is. The \<open>error\<close> entry is not part of the statement: only a real run can fail to
  write.
\<close>

theorem dry_run_equivalence:
  "changes (fst (process_file p True s)) = changes (fst (process_file p False s)) \<and>
   modified (fst (process_file p True s)) = modified (fst (process_file p False s)) \<and>
   (distinct (map (target s) (find_files s SEARCH_DIR FILE_EXTENSIONS)) \<longrightarrow>
      fst (main True s) = fst (main False s) \<and>
      map changes (fst (snd (main True s))) = map changes (fst (snd (main False s))) \<and>
      map modified (fst (snd (main True s))) = map modified (fst (snd (main False s)))) \<and>
   nodes (snd (snd (main True s))) = nodes s"
proof -
  have c: "changes (fst (process_file_with REPLACEMENTS q True s)) =
           changes (fst (process_file_with REPLACEMENTS q False s))" for q
    by (simp add: process_file_changes)
  have m: "modified (fst (process_file_with REPLACEMENTS q True s)) =
           modified (fst (process_file_with REPLACEMENTS q False s))" for q
    by (simp add: process_file_modified)
  have 1: "changes (fst (process_file p True s)) = changes (fst (process_file p False s))"
    unfolding process_file_def by (rule c)
  have 2: "modified (fst (process_file p True s)) = modified (fst (process_file p False s))"
    unfolding process_file_def by (rule m)
  have 3: "fst (main True s) = fst (main False s) \<and>
      map changes (fst (snd (main True s))) = map changes (fst (snd (main False s))) \<and>
      map modified (fst (snd (main True s))) = map modified (fst (snd (main False s)))"
    if d: "distinct (map (target s) (find_files s SEARCH_DIR FILE_EXTENSIONS))"
  proof -
    have "fst (main True s) = fst (main False s)"
      unfolding main_def main_with_results(2) [OF d] c ..
    moreover have "map changes (fst (snd (main True s))) = map changes (fst (snd (main False s)))"
      unfolding main_def main_with_results(1) [OF d] by (simp add: c)
    moreover have "map modified (fst (snd (main True s))) = map modified (fst (snd (main False s)))"
      unfolding main_def main_with_results(1) [OF d] by (simp add: m)
    ultimately show ?thesis by (intro conjI)
  qed
  have 4: "nodes (snd (snd (main True s))) = nodes s"
    unfolding main_def by (rule main_with_dry_nodes)
  from 1 2 3 4 show ?thesis by blast
qed

text \<open>
  The witness is the tree of three files, one with two matches, one without a match
  and one that cannot be read: both runs scan three files and report one modified file
  and two changes.
\<close>

theorem dry_run_equivalence_witness:
  "distinct (map (target demo_tree) (find_files demo_tree SEARCH_DIR FILE_EXTENSIONS)) \<and>
   changes (fst (process_file [''apps'', ''frontend'', ''src'', ''b.css''] True demo_tree)) =
     changes (fst (process_file [''apps'', ''frontend'', ''src'', ''b.css''] False demo_tree)) \<and>
   modified (fst (process_file [''apps'', ''frontend'', ''src'', ''b.css''] True demo_tree)) =
     modified (fst (process_file [''apps'', ''frontend'', ''src'', ''b.css''] False demo_tree)) \<and>
   fst (main True demo_tree) = fst (main False demo_tree) \<and>
   fst (main False demo_tree) = \<lparr>files_scanned = 3, files_modified = 1, sum_changes = 2\<rparr> \<and>
   map changes (fst (snd (main True demo_tree))) = map changes (fst (snd (main False demo_tree))) \<and>
   map modified (fst (snd (main True demo_tree))) = map modified (fst (snd (main False demo_tree))) \<and>
   map modified (fst (snd (main False demo_tree))) = [True, False, False] \<and>
   nodes (snd (snd (main True demo_tree))) = nodes demo_tree"
proof -
  let ?p = "[''apps'', ''frontend'', ''src'', ''b.css'']"
  note w = dry_run_equivalence [of ?p demo_tree]
  from w have 1: "changes (fst (process_file ?p True demo_tree)) =
      changes (fst (process_file ?p False demo_tree))"
    by (rule conjunct1)
  from w have 2: "modified (fst (process_file ?p True demo_tree)) =
      modified (fst (process_file ?p False demo_tree))"
    by (rule conjunct2 [THEN conjunct1])
  from w have "distinct (map (target demo_tree) (find_files demo_tree SEARCH_DIR FILE_EXTENSIONS)) \<longrightarrow>
      fst (main True demo_tree) = fst (main False demo_tree) \<and>
      map changes (fst (snd (main True demo_tree))) = map changes (fst (snd (main False demo_tree))) \<and>
      map modified (fst (snd (main True demo_tree))) = map modified (fst (snd (main False demo_tree)))"
    by (rule conjunct2 [THEN conjunct2, THEN conjunct1])
  from this demo_tree_files have 3:
     "fst (main True demo_tree) = fst (main False demo_tree) \<and>
      map changes (fst (snd (main True demo_tree))) = map changes (fst (snd (main False demo_tree))) \<and>
      map modified (fst (snd (main True demo_tree))) = map modified (fst (snd (main False demo_tree)))"
    by (rule mp)
  from w have 4: "nodes (snd (snd (main True demo_tree))) = nodes demo_tree"
    by (rule conjunct2 [THEN conjunct2, THEN conjunct2])
  have 5: "fst (main False demo_tree) = \<lparr>files_scanned = 3, files_modified = 1, sum_changes = 2\<rparr>"
    by code_simp
  have 6: "map modified (fst (snd (main False demo_tree))) = [True, False, False]"
    by code_simp
  from demo_tree_files 1 2 3 [THEN conjunct1] 5 3 [THEN conjunct2, THEN conjunct1]
    3 [THEN conjunct2, THEN conjunct2] 6 4
  show ?thesis by (intro conjI)
qed

section \<open>C6: when a file is written\<close>

text \<open>
  C6, as stated, fails for \<open>fix_file\<close>: it has no dry-run mode and writes every file
  that it could read, also when no line was removed. Here the content has no logger
  import at all, and the file is written with the text it had.
\<close>

theorem fix_file_writes_unchanged:
  "fix_file_content ''const a = 1'' = ''const a = 1'' \<and>
   fix_file [''src'', ''a.ts''] \<lparr>nodes = [([''src'', ''a.ts''], File True True ''const a = 1'')], trace = []\<rparr> =
     (True, \<lparr>nodes = [([''src'', ''a.ts''], File True True ''const a = 1'')],
             trace = [ReadOp [''src'', ''a.ts''], WriteOp [''src'', ''a.ts''] ''const a = 1'']\<rparr>)"
  by code_simp

text \<open>
  C6, amended: \<open>process_file\<close> tries to write the file exactly when the rewritten
  content differs from the original (\<open>modified\<close>) and dry-run is off; in dry-run mode,
  and when the content is unchanged, the files are left as they are.
  \<open>fix_file\<close> writes every file that it can read.
\<close>

theorem write_back_iff:
  "write_attempts (trace (snd (process_file p dry s))) =
     write_attempts (trace s) @ (if modified (fst (process_file p dry s)) \<and> \<not> dry then [p] else []) \<and>
   (modified (fst (process_file p dry s)) \<longleftrightarrow>
     (\<exists>c chs c'. fst (read_text s p) = Inr c \<and> apply_rules REPLACEMENTS c [] = (chs, Inr c') \<and> c' \<noteq> c)) \<and>
   (dry \<or> \<not> modified (fst (process_file p dry s)) \<longrightarrow> nodes (snd (process_file p dry s)) = nodes s) \<and>
   (fst (read_text s p) = Inr c \<longrightarrow>
     write_attempts (trace (snd (fix_file p s))) = write_attempts (trace s) @ [p])"
proof -
  have 1: "write_attempts (trace (snd (process_file p dry s))) =
     write_attempts (trace s) @ (if modified (fst (process_file p dry s)) \<and> \<not> dry then [p] else [])"
    unfolding process_file_def by (rule process_file_attempts)
  have 2: "modified (fst (process_file p dry s)) \<longleftrightarrow>
     (\<exists>c chs c'. fst (read_text s p) = Inr c \<and> apply_rules REPLACEMENTS c [] = (chs, Inr c') \<and> c' \<noteq> c)"
    unfolding process_file_def process_file_modified
    by (cases "fst (read_text s p)") (auto split: sum.splits simp: prod_eq_iff)
  have 3: "dry \<or> \<not> modified (fst (process_file p dry s)) \<longrightarrow> nodes (snd (process_file p dry s)) = nodes s"
    unfolding process_file_def using process_file_untouched by blast
  have 4: "fst (read_text s p) = Inr c \<longrightarrow>
     write_attempts (trace (snd (fix_file p s))) = write_attempts (trace s) @ [p]"
  proof
    assume rd: "fst (read_text s p) = Inr c"
    let ?s1 = "snd (read_text s p)"
    have "snd (fix_file p s) = snd (write_text ?s1 p (fix_file_content c))"
      using rd
      by (cases "read_text s p"; cases "write_text ?s1 p (fix_file_content c)";
          cases "fst (write_text ?s1 p (fix_file_content c))")
         (simp_all add: fix_file_def)
    then show "write_attempts (trace (snd (fix_file p s))) = write_attempts (trace s) @ [p]"
      by (simp add: write_text_trace)
  qed
  from 1 2 3 4 show ?thesis by blast
qed

theorem write_back_iff_witness:
  "fst (read_text demo_tree [''apps'', ''frontend'', ''src'', ''lib'', ''a.ts'']) = Inr ''const a = 1'' \<and>
   \<not> modified (fst (process_file [''apps'', ''frontend'', ''src'', ''lib'', ''a.ts''] False demo_tree)) \<and>
   nodes (snd (process_file [''apps'', ''frontend'', ''src'', ''lib'', ''a.ts''] False demo_tree)) =
     nodes demo_tree \<and>
   write_attempts (trace (snd (fix_file [''apps'', ''frontend'', ''src'', ''lib'', ''a.ts''] demo_tree))) =
     write_attempts (trace demo_tree) @ [[''apps'', ''frontend'', ''src'', ''lib'', ''a.ts'']]"
proof -
  let ?p = "[''apps'', ''frontend'', ''src'', ''lib'', ''a.ts'']"
  note w = write_back_iff [of ?p False demo_tree "''const a = 1''"]
  have rd: "fst (read_text demo_tree ?p) = Inr ''const a = 1''"
    by code_simp
  have nm: "\<not> modified (fst (process_file ?p False demo_tree))"
    by code_simp
  from w have "False \<or> \<not> modified (fst (process_file ?p False demo_tree)) \<longrightarrow>
      nodes (snd (process_file ?p False demo_tree)) = nodes demo_tree"
    by (rule conjunct2 [THEN conjunct2, THEN conjunct1])
  with nm have n: "nodes (snd (process_file ?p False demo_tree)) = nodes demo_tree" by simp
  from w have "fst (read_text demo_tree ?p) = Inr ''const a = 1'' \<longrightarrow>
      write_attempts (trace (snd (fix_file ?p demo_tree))) = write_attempts (trace demo_tree) @ [?p]"
    by (rule conjunct2 [THEN conjunct2, THEN conjunct2])
  with rd have f: "write_attempts (trace (snd (fix_file ?p demo_tree))) =
      write_attempts (trace demo_tree) @ [?p]" by (rule rev_mp)
  from rd nm n f show ?thesis by (intro conjI)
qed

section \<open>C7: an error in one file\<close>

text \<open>
  C7, as stated, fails for a write error: \<open>main\<close> counts every result that has
  changes, and never looks at the \<open>error\<close> entry. A read-only file with one match is
  counted as modified although it could not be written.
\<close>

theorem write_error_counted:
  "main False \<lparr>nodes = [([''apps'', ''frontend'', ''src'', ''a.css''],
                         File True False ''x { color: var(--border); }'')], trace = []\<rparr> =
     (\<lparr>files_scanned = 1, files_modified = 1, sum_changes = 1\<rparr>,
      [\<lparr>filename = [''apps'', ''frontend'', ''src'', ''a.css''],
        changes = [\<lparr>line = 1, old = ''var(--border)'', new = ''var(--color-border)''\<rparr>],
        modified = True, error = Some FileWriteError\<rparr>],
      \<lparr>nodes = [([''apps'', ''frontend'', ''src'', ''a.css''],
                  File True False ''x { color: var(--border); }'')],
       trace = [ReadOp [''apps'', ''frontend'', ''src'', ''a.css''],
                WriteFailed [''apps'', ''frontend'', ''src'', ''a.css'']]\<rparr>)"
  by code_simp

text \<open>
  C7, amended: \<open>main\<close> processes every file that \<open>find_files\<close> returns, in that
  order, whatever happened to the files before it. A failure while reading a file is
  recorded in the result of that file, which then has no changes and \<open>modified = False\<close>;
  a failure while writing a file is recorded in the result of that file, which keeps its
  changes and \<open>modified = True\<close>. The count of modified files is the number of results
  that have changes: a file that could not be read is not counted, a file that could not
  be written is. When no two of the paths name the same file, the result of each file
  is the one that \<open>process_file\<close> gives for it on the tree as it was at the start.
\<close>

theorem error_isolation:
  "map filename (fst (snd (main dry s))) = find_files s SEARCH_DIR FILE_EXTENSIONS \<and>
   files_modified (fst (main dry s)) =
     length (filter (\<lambda>r. changes r \<noteq> []) (fst (snd (main dry s)))) \<and>
   (fst (read_text s p) = Inl e \<longrightarrow>
      fst (process_file p dry s) =
        \<lparr>filename = p, changes = [], modified = False, error = Some e\<rparr>) \<and>
   (fst (read_text s p) = Inr c \<and> apply_rules REPLACEMENTS c [] = (chs, Inr c') \<and> c' \<noteq> c \<and>
    fst (write_text (snd (read_text s p)) p c') = Inl e' \<longrightarrow>
      fst (process_file p False s) =
        \<lparr>filename = p, changes = chs, modified = True, error = Some e'\<rparr>) \<and>
   (distinct (map (target s) (find_files s SEARCH_DIR FILE_EXTENSIONS)) \<longrightarrow>
      fst (snd (main dry s)) =
        map (\<lambda>q. fst (process_file q dry s)) (find_files s SEARCH_DIR FILE_EXTENSIONS))"
proof -
  have 1: "map filename (fst (snd (main dry s))) = find_files s SEARCH_DIR FILE_EXTENSIONS"
    unfolding main_def by (rule main_with_shape(1))
  have 2: "files_modified (fst (main dry s)) =
           length (filter (\<lambda>r. changes r \<noteq> []) (fst (snd (main dry s))))"
    unfolding main_def by (rule main_with_shape(2))
  have 3: "fst (read_text s p) = Inl e \<longrightarrow>
            fst (process_file p dry s) =
              \<lparr>filename = p, changes = [], modified = False, error = Some e\<rparr>"
    unfolding process_file_def by (simp add: process_file_read_failed)
  have 4: "fst (read_text s p) = Inr c \<and> apply_rules REPLACEMENTS c [] = (chs, Inr c') \<and> c' \<noteq> c \<and>
      fst (write_text (snd (read_text s p)) p c') = Inl e' \<longrightarrow>
        fst (process_file p False s) =
          \<lparr>filename = p, changes = chs, modified = True, error = Some e'\<rparr>"
    unfolding process_file_def by (simp add: process_file_write_failed)
  have 5: "distinct (map (target s) (find_files s SEARCH_DIR FILE_EXTENSIONS)) \<longrightarrow>
      fst (snd (main dry s)) =
        map (\<lambda>q. fst (process_file q dry s)) (find_files s SEARCH_DIR FILE_EXTENSIONS)"
    unfolding main_def process_file_def using main_with_results(1) by blast
  from 1 2 3 4 5 show ?thesis by (intro conjI)
qed

text \<open>
  The witness has the tree of three files, in which \<open>locked.tsx\<close> cannot be read, and
  the read-only file of the counterexample, which cannot be written.
\<close>

theorem error_isolation_witness:
  "map filename (fst (snd (main False demo_tree))) =
     [[''apps'', ''frontend'', ''src'', ''b.css''], [''apps'', ''frontend'', ''src'', ''lib'', ''a.ts''],
      [''apps'', ''frontend'', ''src'', ''locked.tsx'']] \<and>
   files_modified (fst (main False demo_tree)) =
     length (filter (\<lambda>r. changes r \<noteq> []) (fst (snd (main False demo_tree)))) \<and>
   fst (read_text demo_tree [''apps'', ''frontend'', ''src'', ''locked.tsx'']) = Inl FileReadError \<and>
   fst (process_file [''apps'', ''frontend'', ''src'', ''locked.tsx''] False demo_tree) =
     \<lparr>filename = [''apps'', ''frontend'', ''src'', ''locked.tsx''], changes = [], modified = False,
      error = Some FileReadError\<rparr> \<and>
   fst (read_text \<lparr>nodes = [([''apps'', ''frontend'', ''src'', ''a.css''],
                               File True False ''x { color: var(--border); }'')], trace = []\<rparr>
      [''apps'', ''frontend'', ''src'', ''a.css'']) = Inr ''x { color: var(--border); }'' \<and>
   apply_rules REPLACEMENTS ''x { color: var(--border); }'' [] =
     ([\<lparr>line = 1, old = ''var(--border)'', new = ''var(--color-border)''\<rparr>],
      Inr ''x { color: var(--color-border); }'') \<and>
   ''x { color: var(--color-border); }'' \<noteq> ''x { color: var(--border); }'' \<and>
   fst (write_text
      (snd (read_text \<lparr>nodes = [([''apps'', ''frontend'', ''src'', ''a.css''],
                                    File True False ''x { color: var(--border); }'')], trace = []\<rparr>
         [''apps'', ''frontend'', ''src'', ''a.css'']))
      [''apps'', ''frontend'', ''src'', ''a.css''] ''x { color: var(--color-border); }'') =
     Inl FileWriteError \<and>
   fst (process_file [''apps'', ''frontend'', ''src'', ''a.css''] False
      \<lparr>nodes = [([''apps'', ''frontend'', ''src'', ''a.css''],
                  File True False ''x { color: var(--border); }'')], trace = []\<rparr>) =
     \<lparr>filename = [''apps'', ''frontend'', ''src'', ''a.css''],
      changes = [\<lparr>line = 1, old = ''var(--border)'', new = ''var(--color-border)''\<rparr>],
      modified = True, error = Some FileWriteError\<rparr> \<and>
   distinct (map (target demo_tree) (find_files demo_tree SEARCH_DIR FILE_EXTENSIONS)) \<and>
   fst (snd (main False demo_tree)) =
     map (\<lambda>q. fst (process_file q False demo_tree)) (find_files demo_tree SEARCH_DIR FILE_EXTENSIONS)"
proof -
  let ?p = "[''apps'', ''frontend'', ''src'', ''locked.tsx'']"
  let ?a = "[''apps'', ''frontend'', ''src'', ''a.css'']"
  let ?c = "''x { color: var(--border); }''"
  let ?c' = "''x { color: var(--color-border); }''"
  let ?rec = "\<lparr>line = 1, old = ''var(--border)'', new = ''var(--color-border)''\<rparr>"
  let ?T = "\<lparr>nodes = [(?a, File True False ?c)], trace = []\<rparr>"
  note w = error_isolation [where dry = False and s = demo_tree and p = ?p and e = FileReadError]
  note v = error_isolation [where s = ?T and p = ?a and c = ?c and chs = "[?rec]" and c' = ?c' and
      e' = FileWriteError]
  have ff: "find_files demo_tree SEARCH_DIR FILE_EXTENSIONS =
     [[''apps'', ''frontend'', ''src'', ''b.css''], [''apps'', ''frontend'', ''src'', ''lib'', ''a.ts''],
      [''apps'', ''frontend'', ''src'', ''locked.tsx'']]"
    by code_simp
  from w have "map filename (fst (snd (main False demo_tree))) =
      find_files demo_tree SEARCH_DIR FILE_EXTENSIONS"
    by (rule conjunct1)
  then have 1: "map filename (fst (snd (main False demo_tree))) =
     [[''apps'', ''frontend'', ''src'', ''b.css''], [''apps'', ''frontend'', ''src'', ''lib'', ''a.ts''],
      [''apps'', ''frontend'', ''src'', ''locked.tsx'']]"
    unfolding ff .
  from w have 2: "files_modified (fst (main False demo_tree)) =
     length (filter (\<lambda>r. changes r \<noteq> []) (fst (snd (main False demo_tree))))"
    by (rule conjunct2 [THEN conjunct1])
  have rd: "fst (read_text demo_tree ?p) = Inl FileReadError"
    by code_simp
  from w have "fst (read_text demo_tree ?p) = Inl FileReadError \<longrightarrow>
     fst (process_file ?p False demo_tree) =
       \<lparr>filename = ?p, changes = [], modified = False, error = Some FileReadError\<rparr>"
    by (rule conjunct2 [THEN conjunct2, THEN conjunct1])
  from this rd have 3: "fst (process_file ?p False demo_tree) =
       \<lparr>filename = ?p, changes = [], modified = False, error = Some FileReadError\<rparr>"
    by (rule mp)
  have ra: "fst (read_text ?T ?a) = Inr ?c"
    by code_simp
  have ar: "apply_rules REPLACEMENTS ?c [] = ([?rec], Inr ?c')"
    by code_simp
  have ne: "?c' \<noteq> ?c"
    by simp
  have wf: "fst (write_text (snd (read_text ?T ?a)) ?a ?c') = Inl FileWriteError"
    by code_simp
  from v have "fst (read_text ?T ?a) = Inr ?c \<and> apply_rules REPLACEMENTS ?c [] = ([?rec], Inr ?c') \<and>
      ?c' \<noteq> ?c \<and> fst (write_text (snd (read_text ?T ?a)) ?a ?c') = Inl FileWriteError \<longrightarrow>
      fst (process_file ?a False ?T) =
        \<lparr>filename = ?a, changes = [?rec], modified = True, error = Some FileWriteError\<rparr>"
    by (rule conjunct2 [THEN conjunct2, THEN conjunct2, THEN conjunct1])
  moreover have "fst (read_text ?T ?a) = Inr ?c \<and> apply_rules REPLACEMENTS ?c [] = ([?rec], Inr ?c') \<and>
      ?c' \<noteq> ?c \<and> fst (write_text (snd (read_text ?T ?a)) ?a ?c') = Inl FileWriteError"
    using ra ar ne wf by (intro conjI)
  ultimately have 4: "fst (process_file ?a False ?T) =
        \<lparr>filename = ?a, changes = [?rec], modified = True, error = Some FileWriteError\<rparr>"
    by (rule mp)
  from w have "distinct (map (target demo_tree) (find_files demo_tree SEARCH_DIR FILE_EXTENSIONS)) \<longrightarrow>
      fst (snd (main False demo_tree)) =
        map (\<lambda>q. fst (process_file q False demo_tree)) (find_files demo_tree SEARCH_DIR FILE_EXTENSIONS)"
    by (rule conjunct2 [THEN conjunct2, THEN conjunct2, THEN conjunct2])
  from this demo_tree_files have 5: "fst (snd (main False demo_tree)) =
        map (\<lambda>q. fst (process_file q False demo_tree)) (find_files demo_tree SEARCH_DIR FILE_EXTENSIONS)"
    by (rule mp)
  from 1 2 rd 3 ra ar ne wf 4 demo_tree_files 5 show ?thesis by (intro conjI)
qed

section \<open>C8: patterns that do not compile\<close>

text \<open>
  C8, as stated, fails on the loop of \<open>process_file\<close>: nothing checks the patterns
  before the first file is read. A pattern is compiled when its turn comes, inside the
  \<open>try\<close> block of \<open>process_file\<close>, so a pattern that does not compile becomes the
  error of every file, after the file has been read and after the rules before it have
  recorded their changes. Here the table is the rule for \<open>var(--border)\<close> followed by
  a rule whose closing parenthesis is not escaped.
\<close>

theorem malformed_pattern_is_per_file_error:
  "re_compile (''var'' @ [bslash] @ ''(--ring)'') = Malformed \<and>
   main_with [(var_re ''border'', ''var(--color-border)''),
              (''var'' @ [bslash] @ ''(--ring)'', ''var(--color-ring)'')] False
     \<lparr>nodes = [([''apps'', ''frontend'', ''src'', ''a.css''], File True True ''x { color: var(--border); }''),
               ([''apps'', ''frontend'', ''src'', ''b.css''], File True True ''y { color: var(--ring); }'')],
      trace = []\<rparr> =
     (\<lparr>files_scanned = 2, files_modified = 1, sum_changes = 1\<rparr>,
      [\<lparr>filename = [''apps'', ''frontend'', ''src'', ''a.css''],
        changes = [\<lparr>line = 1, old = ''var(--border)'', new = ''var(--color-border)''\<rparr>],
        modified = False, error = Some RegexError\<rparr>,
       \<lparr>filename = [''apps'', ''frontend'', ''src'', ''b.css''],
        changes = [], modified = False, error = Some RegexError\<rparr>],
      \<lparr>nodes = [([''apps'', ''frontend'', ''src'', ''a.css''], File True True ''x { color: var(--border); }''),
                ([''apps'', ''frontend'', ''src'', ''b.css''], File True True ''y { color: var(--ring); }'')],
       trace = [ReadOp [''apps'', ''frontend'', ''src'', ''a.css''],
                ReadOp [''apps'', ''frontend'', ''src'', ''b.css'']]\<rparr>)"
  by code_simp

text \<open>
  C8, amended: no pattern of \<open>REPLACEMENTS\<close> is malformed, the loop over
  \<open>REPLACEMENTS\<close> ends without an exception on every content, and so no result of
  \<open>process_file\<close> carries a pattern error.
\<close>

theorem no_pattern_error:
  "Malformed \<notin> set (map (\<lambda>(pattern, replacement). re_compile pattern) REPLACEMENTS) \<and>
   (\<exists>chs content'. apply_rules REPLACEMENTS content [] = (chs, Inr content')) \<and>
   error (fst (process_file p dry s)) \<noteq> Some RegexError"
proof -
  have 1: "Malformed \<notin> set (map (\<lambda>(pattern, replacement). re_compile pattern) REPLACEMENTS)"
    using REPLACEMENTS_var_rules unfolding var_rules_def by fastforce
  have 2: "\<exists>chs content'. apply_rules REPLACEMENTS content [] = (chs, Inr content')" for content
    using apply_rules_idempotent [OF REPLACEMENTS_var_rules, of content] by blast
  have 3: "error (fst (process_file p dry s)) \<noteq> Some RegexError"
    unfolding process_file_def
  proof (cases rule: process_file_with_cases [of s p REPLACEMENTS dry])
    case (read_failed e)
    then show "error (fst (process_file_with REPLACEMENTS p dry s)) \<noteq> Some RegexError"
      using read_text_error by fastforce
  next
    case (rule_failed c chs e)
    then show "error (fst (process_file_with REPLACEMENTS p dry s)) \<noteq> Some RegexError"
      using 2 [of c] by simp
  next
    case (write_failed c chs c' e)
    then show "error (fst (process_file_with REPLACEMENTS p dry s)) \<noteq> Some RegexError"
      using write_text_error by fastforce
  qed simp_all
  from 1 2 3 show ?thesis by blast
qed

theorem no_pattern_error_witness:
  "(\<exists>chs content'. apply_rules REPLACEMENTS ''a { color: var(--ring); }'' [] = (chs, Inr content')) \<and>
   error (fst (process_file [''apps'', ''frontend'', ''src'', ''b.css''] False demo_tree)) \<noteq> Some RegexError"
  using no_pattern_error [of "''a { color: var(--ring); }''" "[''apps'', ''frontend'', ''src'', ''b.css'']"
      False demo_tree]
  by (rule conjunct2)

section \<open>C9: the order in which files are visited\<close>

text \<open>
  C9, as stated, fails for \<open>main\<close> of \<open>fix_orphaned.py\<close>: it visits the files in the
  order in which \<open>os.walk\<close> lists them and does not sort. When the directory is
  listed as \<open>b.ts\<close>, \<open>a.ts\<close> the files are visited in that order, which is not the
  lexicographic one; listed the other way round, they are visited the other way round.
\<close>

theorem os_walk_order_unsorted:
  "ts_files [FileEnt ''b.ts'', FileEnt ''a.ts''] = [''src/b.ts'', ''src/a.ts''] \<and>
   \<not> sorted [''src/b.ts'', ''src/a.ts''] \<and>
   ts_files [FileEnt ''a.ts'', FileEnt ''b.ts''] = [''src/a.ts'', ''src/b.ts'']"
  by code_simp

text \<open>
  C9, amended: \<open>find_files\<close> returns the files in sorted order (paths compared
  component by component), and the result does not depend on the order in which the
  tree is enumerated nor on the order in which the extensions are taken.
\<close>

theorem find_files_deterministic:
  "sorted (find_files s d exts) \<and>
   (mset (map fst (nodes s')) = mset (map fst (nodes s)) \<and> mset exts' = mset exts \<longrightarrow>
      find_files s' d exts' = find_files s d exts)"
proof
  show "sorted (find_files s d exts)" by (simp add: find_files_def)
  show "mset (map fst (nodes s')) = mset (map fst (nodes s)) \<and> mset exts' = mset exts \<longrightarrow>
      find_files s' d exts' = find_files s d exts"
  proof
    assume a: "mset (map fst (nodes s')) = mset (map fst (nodes s)) \<and> mset exts' = mset exts"
    then have r: "mset (rglob s' d ext) = mset (rglob s d ext)" for ext
      unfolding mset_rglob by simp
    have "mset (concat (map (rglob s' d) exts')) = mset (concat (map (rglob s d) exts))"
      unfolding mset_concat_map using a r by simp
    then show "find_files s' d exts' = find_files s d exts"
      unfolding find_files_def by (intro properties_for_sort) simp_all
  qed
qed

theorem find_files_deterministic_witness:
  "mset (map fst (nodes demo_tree_reordered)) = mset (map fst (nodes demo_tree)) \<and>
   mset [''.css'', ''.ts'', ''.tsx''] = mset FILE_EXTENSIONS \<and>
   find_files demo_tree_reordered SEARCH_DIR [''.css'', ''.ts'', ''.tsx''] =
     find_files demo_tree SEARCH_DIR FILE_EXTENSIONS \<and>
   sorted (find_files demo_tree SEARCH_DIR FILE_EXTENSIONS)"
proof -
  note w = find_files_deterministic [of demo_tree SEARCH_DIR FILE_EXTENSIONS demo_tree_reordered
      "[''.css'', ''.ts'', ''.tsx'']"]
  have 1: "mset (map fst (nodes demo_tree_reordered)) = mset (map fst (nodes demo_tree))"
    by (simp add: demo_tree_def demo_tree_reordered_def)
  have 2: "mset [''.css'', ''.ts'', ''.tsx''] = mset FILE_EXTENSIONS"
    by (simp add: FILE_EXTENSIONS_def)
  from w have 3: "sorted (find_files demo_tree SEARCH_DIR FILE_EXTENSIONS)" by (rule conjunct1)
  from w have "mset (map fst (nodes demo_tree_reordered)) = mset (map fst (nodes demo_tree)) \<and>
      mset [''.css'', ''.ts'', ''.tsx''] = mset FILE_EXTENSIONS \<longrightarrow>
      find_files demo_tree_reordered SEARCH_DIR [''.css'', ''.ts'', ''.tsx''] =
        find_files demo_tree SEARCH_DIR FILE_EXTENSIONS"
    by (rule conjunct2)
  with 1 2 have 4: "find_files demo_tree_reordered SEARCH_DIR [''.css'', ''.ts'', ''.tsx''] =
        find_files demo_tree SEARCH_DIR FILE_EXTENSIONS" by blast
  from 1 2 4 3 show ?thesis by (intro conjI)
qed

section \<open>C10: the line-removal scripts\<close>

text \<open>
  C10 fails for \<open>fix_orphaned_syntax\<close>: when the line after a trigger line is not an
  orphan, the inner loop appends it and stops without moving the index, and the outer
  loop appends the same line again. The closing brace after the call is doubled, and
  no line was removed. (For \<open>fix_file\<close> the claim holds: \<open>dedup_lines_subseq\<close> and
  \<open>fix_file_content_id\<close> above.)
\<close>

theorem fix_orphaned_duplicates_line:
  "fix_orphaned_content ''  throw this.handleErrorEnhanced(error)\<newline>}'' =
     (''  throw this.handleErrorEnhanced(error)\<newline>}\<newline>}'', 0) \<and>
   split_nl ''  throw this.handleErrorEnhanced(error)\<newline>}'' =
     [''  throw this.handleErrorEnhanced(error)'', ''}''] \<and>
   split_nl ''  throw this.handleErrorEnhanced(error)\<newline>}\<newline>}'' =
     [''  throw this.handleErrorEnhanced(error)'', ''}'', ''}'']"
  by code_simp

end
